theory Spec2Isabelle
  imports Main "HOL-Library.AList"
begin

section \<open>Sequential agent queue: workflow definitions\<close>

text \<open>
  A stage of a workflow definition, as \<^verbatim>\<open>queue.js\<close> reads it. \<open>retries\<close> is
  \<open>None\<close> when the stage leaves it undefined. \<open>preparation\<close> tells what building the
  task text does before the first attempt: the stage's \<^verbatim>\<open>contextFrom\<close> callback may
  throw, and \<^verbatim>\<open>injectContext\<close> builds a regular expression from every context key,
  which throws a SyntaxError on a key it cannot parse. The fields that only reach
  the external spawner (\<^verbatim>\<open>agentId\<close>, \<^verbatim>\<open>timeoutMinutes\<close>) are left out.
\<close>

datatype preparation = Ready | ContextFromThrows string | InjectContextThrows string

record stage =
  name :: string
  task :: string
  dependencies :: "string list"
  retries :: "nat option"
  preparation :: preparation

section \<open>Dependency sorter\<close>

text \<open>
  \<^verbatim>\<open>adj\<close> and \<^verbatim>\<open>indegree\<close> are JavaScript objects used as dictionaries keyed by
  stage name: association lists, read with \<^const>\<open>map_of\<close> and written with
  \<^const>\<open>AList.update\<close>.
\<close>

type_synonym adjacency = "(string \<times> string list) list"
type_synonym indegrees = "(string \<times> int) list"

datatype sort_error =
    CircularDependency string
  | CircularDependencyInvolving "string list"
  | TypeError

text \<open>
  The two initialising assignments of the first loop:
  \<^verbatim>\<open>adj[stage.name] = []; indegree[stage.name] = 0;\<close>
\<close>

definition initAdj :: "stage list \<Rightarrow> adjacency" where
  "initAdj stages = fold (\<lambda>s adj. AList.update (name s) [] adj) stages []"

definition initIndegree :: "stage list \<Rightarrow> indegrees" where
  "initIndegree stages = fold (\<lambda>s ind. AList.update (name s) 0 ind) stages []"

text \<open>
  The inner edge loop for one stage \<open>n\<close>:
  \<^verbatim>\<open>for (const dep of stage.dependencies) { adj[dep].push(stage.name); indegree[stage.name]++; }\<close>
  \<^verbatim>\<open>adj[dep]\<close> is \<^verbatim>\<open>undefined\<close> for a name that is no stage, and \<^verbatim>\<open>.push\<close> on it
  throws a TypeError (\<open>None\<close>). Incrementing a missing counter would store NaN, which
  never compares equal to zero; a missing key stands for it.
\<close>

fun addEdges :: "string \<Rightarrow> string list \<Rightarrow> adjacency \<Rightarrow> indegrees \<Rightarrow> (adjacency \<times> indegrees) option" where
  "addEdges n [] adj indegree = Some (adj, indegree)"
| "addEdges n (dep # deps) adj indegree =
     (case map_of adj dep of
        None \<Rightarrow> None
      | Some ns \<Rightarrow>
          addEdges n deps (AList.update dep (ns @ [n]) adj)
            (case map_of indegree n of
               None \<Rightarrow> indegree
             | Some d \<Rightarrow> AList.update n (d + 1) indegree))"

fun buildEdges :: "stage list \<Rightarrow> adjacency \<Rightarrow> indegrees \<Rightarrow> (adjacency \<times> indegrees) option" where
  "buildEdges [] adj indegree = Some (adj, indegree)"
| "buildEdges (s # ss) adj indegree =
     (case addEdges (name s) (dependencies s) adj indegree of
        None \<Rightarrow> None
      | Some (adj', indegree') \<Rightarrow> buildEdges ss adj' indegree')"

text \<open>
  The body of the \<^verbatim>\<open>for (const neighbor of adj[current])\<close> loop:
  \<^verbatim>\<open>indegree[neighbor]--; if (indegree[neighbor] === 0) queue.push(neighbor);\<close>
\<close>

fun decrementAll :: "string list \<Rightarrow> indegrees \<Rightarrow> string list \<Rightarrow> indegrees \<times> string list" where
  "decrementAll [] indegree queue = (indegree, queue)"
| "decrementAll (neighbor # rest) indegree queue =
     (case map_of indegree neighbor of
        None \<Rightarrow> decrementAll rest indegree queue
      | Some d \<Rightarrow>
          decrementAll rest (AList.update neighbor (d - 1) indegree)
            (if d - 1 = 0 then queue @ [neighbor] else queue))"

text \<open>
  The \<^verbatim>\<open>while (queue.length > 0)\<close> loop of Kahn's algorithm. \<^verbatim>\<open>queue.shift()\<close> takes the
  head; a stage already in \<^verbatim>\<open>visited\<close> throws; iterating \<^verbatim>\<open>adj[current]\<close> when it is
  \<^verbatim>\<open>undefined\<close> throws a TypeError.
\<close>

function kahnLoop ::
  "adjacency \<Rightarrow> indegrees \<Rightarrow> string list \<Rightarrow> string list \<Rightarrow> string set \<Rightarrow> sort_error + string list" where
  "kahnLoop adj indegree [] result visited = Inr result"
| "kahnLoop adj indegree (current # queue) result visited =
     (if current \<in> visited then Inl (CircularDependency current)
      else (case map_of adj current of
              None \<Rightarrow> Inl TypeError
            | Some neighbors \<Rightarrow>
                kahnLoop adj (fst (decrementAll neighbors indegree queue))
                  (snd (decrementAll neighbors indegree queue))
                  (result @ [current]) (insert current visited)))"
  by pat_completeness auto

termination kahnLoop
proof (relation "measure (\<lambda>(adj, indegree, queue, result, visited). card (fst ` set adj - visited))")
  show "wf (measure (\<lambda>(adj, indegree, queue, result, visited). card (fst ` set adj - visited)))"
    by simp
next
  fix adj :: adjacency and indegree :: indegrees and current :: string
    and queue result :: "string list" and visited :: "string set" and neighbors
  assume nv: "current \<notin> visited" and look: "map_of adj current = Some neighbors"
  from look have "current \<in> fst ` set adj"
    by (metis domI dom_map_of_conv_image_fst)
  then have "fst ` set adj - insert current visited \<subset> fst ` set adj - visited"
    using nv by auto
  then have "card (fst ` set adj - insert current visited) < card (fst ` set adj - visited)"
    by (simp add: psubset_card_mono)
  then show "((adj, fst (decrementAll neighbors indegree queue),
               snd (decrementAll neighbors indegree queue), result @ [current],
               insert current visited),
              (adj, indegree, current # queue, result, visited))
             \<in> measure (\<lambda>(adj, indegree, queue, result, visited). card (fst ` set adj - visited))"
    by simp
qed

text \<open>
  \<^verbatim>\<open>topologicalSort(stages)\<close>: build the two dictionaries, seed the queue with the
  stages of indegree zero in definition order, run the loop, and throw when some
  stage was never emitted.
\<close>

definition topologicalSort :: "stage list \<Rightarrow> sort_error + string list" where
  "topologicalSort stages =
     (let stageNames = map name stages in
      case buildEdges stages (initAdj stages) (initIndegree stages) of
        None \<Rightarrow> Inl TypeError
      | Some (adj, indegree) \<Rightarrow>
          (case kahnLoop adj indegree
                  (filter (\<lambda>n. map_of indegree n = Some 0) stageNames) [] {} of
             Inl e \<Rightarrow> Inl e
           | Inr result \<Rightarrow>
               if length result \<noteq> length stageNames
               then Inl (CircularDependencyInvolving
                           (filter (\<lambda>n. n \<notin> set result) stageNames))
               else Inr result))"

subsection \<open>The dependency graph of a stage list\<close>

text \<open>
  The dependencies declared for the name \<open>n\<close> (of every stage carrying that name), the
  dependency relation (an edge leads from a dependency to the stage that needs it),
  and the position of a name in an execution order (\<^verbatim>\<open>indexOf\<close>).
\<close>

definition depsOf :: "stage list \<Rightarrow> string \<Rightarrow> string list" where
  "depsOf stages n = concat (map dependencies (filter (\<lambda>s. name s = n) stages))"

definition depRel :: "stage list \<Rightarrow> (string \<times> string) set" where
  "depRel stages = {(d, n). \<exists>s \<in> set stages. name s = n \<and> d \<in> set (dependencies s)}"

definition uniqueNames :: "stage list \<Rightarrow> bool" where
  "uniqueNames stages = distinct (map name stages)"

definition depsResolve :: "stage list \<Rightarrow> bool" where
  "depsResolve stages =
     (\<forall>s \<in> set stages. \<forall>d \<in> set (dependencies s). d \<in> set (map name stages))"

fun indexOf :: "'a list \<Rightarrow> 'a \<Rightarrow> nat" where
  "indexOf [] x = 0"
| "indexOf (y # ys) x = (if x = y then 0 else Suc (indexOf ys x))"

text \<open>
  The stages that list \<open>d\<close> among their dependencies, in definition order and once
  per mention: the contents of \<^verbatim>\<open>adj[d]\<close> once the edges are built.
\<close>

definition dependents :: "stage list \<Rightarrow> string \<Rightarrow> string list" where
  "dependents stages d =
     concat (map (\<lambda>s. replicate (count_list (dependencies s) d) (name s)) stages)"

text \<open>
  The loop invariant of Kahn's algorithm over a fixed stage list: \<^verbatim>\<open>visited\<close> mirrors
  \<^verbatim>\<open>result\<close>; emitted and queued names are distinct stage names; every counter holds
  the number of dependencies not yet emitted; a stage is queued or emitted exactly
  when all its dependencies are emitted; and every emitted stage comes after its
  dependencies.
\<close>

definition kahnInv ::
  "stage list \<Rightarrow> indegrees \<Rightarrow> string list \<Rightarrow> string list \<Rightarrow> string set \<Rightarrow> bool" where
  "kahnInv stages indegree queue result visited \<longleftrightarrow>
     visited = set result
     \<and> distinct (result @ queue)
     \<and> set (result @ queue) \<subseteq> set (map name stages)
     \<and> (\<forall>n \<in> set (map name stages).
           map_of indegree n
             = Some (int (length (filter (\<lambda>d. d \<notin> set result) (depsOf stages n)))))
     \<and> (\<forall>n \<in> set (map name stages).
           (n \<in> set queue \<union> set result) = (set (depsOf stages n) \<subseteq> set result))
     \<and> (\<forall>i < length result. set (depsOf stages (result ! i)) \<subseteq> set (take i result))"

section \<open>Error classifier and recovery advisor\<close>

text \<open>
  The classifier tests an error message against regular expressions that are
  alternations of literal words under the \<^verbatim>\<open>i\<close> flag: a case-insensitive substring
  test. Case folding is the ASCII one.
\<close>

definition lowerChar :: "char \<Rightarrow> char" where
  "lowerChar c =
     (let n = (of_char c :: nat) in if 65 \<le> n \<and> n \<le> 90 then char_of (n + 32) else c)"

definition toLowerCase :: "string \<Rightarrow> string" where
  "toLowerCase s = map lowerChar s"

fun startsWith :: "string \<Rightarrow> string \<Rightarrow> bool" where
  "startsWith s [] = True"
| "startsWith [] (p # ps) = False"
| "startsWith (c # cs) (p # ps) = (c = p \<and> startsWith cs ps)"

fun includesStr :: "string \<Rightarrow> string \<Rightarrow> bool" where
  "includesStr [] p = (p = [])"
| "includesStr (c # cs) p = (startsWith (c # cs) p \<or> includesStr cs p)"

text \<open>\<^verbatim>\<open>/w1|w2|.../i.test(message)\<close> for lower-case literal words.\<close>

definition testWords :: "string list \<Rightarrow> string \<Rightarrow> bool" where
  "testWords ws message = list_ex (includesStr (toLowerCase message)) ws"

datatype error_type =
    TIMEOUT | RESOURCE_EXHAUSTED | INVALID_INPUT | NETWORK_ERROR
  | AGENT_SPAWN_FAILED | VALIDATION_FAILED | ABANDONED_STAGE | UNKNOWN

fun RETRYABILITY :: "error_type \<Rightarrow> bool" where
  "RETRYABILITY TIMEOUT = True"
| "RETRYABILITY RESOURCE_EXHAUSTED = True"
| "RETRYABILITY NETWORK_ERROR = True"
| "RETRYABILITY AGENT_SPAWN_FAILED = True"
| "RETRYABILITY INVALID_INPUT = False"
| "RETRYABILITY VALIDATION_FAILED = False"
| "RETRYABILITY ABANDONED_STAGE = False"
| "RETRYABILITY UNKNOWN = False"

text \<open>
  The classification result; its \<^verbatim>\<open>metadata\<close> (the message and a fixed suggestion
  text per type) plays no part in any decision and is left out.
\<close>

record classification =
  errType :: error_type
  retryable :: bool

definition classified :: "error_type \<Rightarrow> classification" where
  "classified t = \<lparr>errType = t, retryable = RETRYABILITY t\<rparr>"

text \<open>\<^verbatim>\<open>classifyError(error)\<close>, on \<^verbatim>\<open>error.message || ''\<close>; the first test that matches wins.\<close>

definition classifyError :: "string \<Rightarrow> classification" where
  "classifyError message =
     (if testWords [''timeout'', ''exceeded'', ''time limit''] message
        then classified TIMEOUT
      else if testWords [''memory'', ''disk'', ''space'', ''resource'', ''exhausted'', ''heap''] message
        then classified RESOURCE_EXHAUSTED
      else if testWords [''invalid'', ''validation'', ''format'', ''schema'', ''parse'', ''syntax''] message
        then classified INVALID_INPUT
      else if testWords [''network'', ''connection'', ''fetch'', ''request'',
                         ''econnrefused'', ''etimedout'', ''enotfound''] message
        then classified NETWORK_ERROR
      else if testWords [''spawn'', ''agent'', ''session''] message
        then classified AGENT_SPAWN_FAILED
      else if testWords [''evidence'', ''validation'', ''proof'', ''verify''] message
        then classified VALIDATION_FAILED
      else if testWords [''abandoned''] message
        then classified ABANDONED_STAGE
      else classified UNKNOWN)"

datatype recovery_action = retry | halt

text \<open>\<^verbatim>\<open>decideRecoveryAction(classification, {attempt, maxRetries})\<close>, its \<^verbatim>\<open>action\<close>.\<close>

definition decideRecoveryAction :: "classification \<Rightarrow> nat \<Rightarrow> nat \<Rightarrow> recovery_action" where
  "decideRecoveryAction c attempt maxRetries =
     (if \<not> retryable c then halt
      else if attempt \<ge> maxRetries + 1 then halt
      else retry)"

text \<open>
  \<^verbatim>\<open>handleWorkflowError(error, context)\<close>, its \<^verbatim>\<open>shouldRetry\<close> field: classify, decide, and
  report whether the decision is to retry. The recovery action in between only
  waits or proposes values; logging cannot fail the call.
\<close>

definition handleWorkflowError :: "string \<Rightarrow> nat \<Rightarrow> nat \<Rightarrow> bool" where
  "handleWorkflowError message attempt maxRetries =
     (decideRecoveryAction (classifyError message) attempt maxRetries = retry)"

text \<open>
  The error \<^verbatim>\<open>executeStage\<close> throws when \<^verbatim>\<open>detectAbandonedStage\<close> answers true:
  \<^verbatim>\<open>Stage "${stageName}" was abandoned: session inactive but no output generated\<close>.
\<close>

definition abandonedMessage :: "string \<Rightarrow> string" where
  "abandonedMessage stageName =
     ''Stage '' @ [CHR 0x22] @ stageName @ [CHR 0x22]
       @ '' was abandoned: session inactive but no output generated''"

section \<open>Evidence validator\<close>

text \<open>
  The completion evidence parsed out of a stage's output. Only \<^verbatim>\<open>filePath\<close> and
  \<^verbatim>\<open>fixLog\<close> are ever read; a field is \<open>None\<close> when the key is missing, and the
  empty string is falsy like a missing key.
\<close>

record evidence =
  filePath :: "string option"
  fixLog :: "string option"

definition truthy :: "string option \<Rightarrow> bool" where
  "truthy f = (case f of None \<Rightarrow> False | Some s \<Rightarrow> s \<noteq> [])"

text \<open>
  What the validator reads from outside: the files on disk (\<^verbatim>\<open>fs.stat\<close> gives
  \<^verbatim>\<open>mtimeMs\<close> and \<^verbatim>\<open>size\<close>, \<^verbatim>\<open>fs.readFile\<close> the content, \<open>None\<close> when the
  read throws), the clock \<^verbatim>\<open>Date.now()\<close> in milliseconds, \<^verbatim>\<open>process.cwd()\<close>, and
  \<^verbatim>\<open>JSON.parse\<close>, which throws (\<open>Inl\<close> of the message) or yields the object. Content is
  a sequence of bytes. A path missing from \<open>files\<close> fails with \<^verbatim>\<open>ENOENT\<close>.
\<close>

record file_node =
  mtimeMs :: int
  size :: nat
  content :: "string option"

record fs_env =
  files :: "string \<Rightarrow> file_node option"
  now :: int
  cwd :: string
  parseJSON :: "string \<Rightarrow> string + evidence"

record validation =
  valid :: bool
  found :: "evidence option"
  errors :: "string list"

text \<open>
  \<^verbatim>\<open>output.match(/\{[\s\S]*"evidenceType"[\s\S]*\}/)\<close>: both stars are greedy and match
  anything, so a match runs from the first opening brace to the last closing brace
  of the output, and exists when the quoted key occurs strictly between them.
\<close>

definition matchEvidenceObject :: "string \<Rightarrow> string option" where
  "matchEvidenceObject output =
     (let fromBrace = dropWhile (\<lambda>c. c \<noteq> CHR ''{'') output;
          m = rev (dropWhile (\<lambda>c. c \<noteq> CHR ''}'') (rev fromBrace))
      in if length m \<ge> 2
            \<and> includesStr (butlast (tl m)) ([CHR 0x22] @ ''evidenceType'' @ [CHR 0x22])
         then Some m else None)"

text \<open>\<^verbatim>\<open>path.isAbsolute(p) ? p : path.join(process.cwd(), p)\<close>, without normalisation.\<close>

definition resolvePath :: "fs_env \<Rightarrow> string \<Rightarrow> string" where
  "resolvePath env p = (if startsWith p ''/'' then p else cwd env @ ''/'' @ p)"

text \<open>Decimal rendering of a number inside a message.\<close>

fun showNat :: "nat \<Rightarrow> string" where
  "showNat n = (if n < 10 then [char_of (48 + n)] else showNat (n div 10) @ [char_of (48 + n mod 10)])"

definition showInt :: "int \<Rightarrow> string" where
  "showInt i = (if i < 0 then ''-'' @ showNat (nat (- i)) else showNat (nat i))"

text \<open>
  The fabrication markers \<^verbatim>\<open>/i checked/i\<close>, \<^verbatim>\<open>/looks good/i\<close>, ... in source order; the
  loop reports the first marker found, and only for content shorter than 200.
\<close>

definition fakeMarkers :: "string list" where
  "fakeMarkers = [''i checked'', ''looks good'', ''seems fine'', ''probably fine'',
                  ''should work'', ''verified mentally'']"

definition fakeMarkerErrors :: "string \<Rightarrow> string \<Rightarrow> string list" where
  "fakeMarkerErrors c p =
     (case filter (\<lambda>m. includesStr (toLowerCase c) m \<and> length c < 200) fakeMarkers of
        [] \<Rightarrow> []
      | m # _ \<Rightarrow> [''Evidence contains fake verification marker: '' @ [CHR 0x22] @ ''/'' @ m @ ''/i''
                   @ [CHR 0x22] @ '' in '' @ p])"

text \<open>
  The test-output markers. \<open>anyAfter w k s\<close> holds when \<open>w\<close> occurs in \<open>s\<close> and \<open>k\<close>
  accepts what follows that occurrence; \<open>spacesDigit\<close> is \<^verbatim>\<open>\s*\d+\<close>. The two check
  marks are their UTF-8 bytes.
\<close>

definition isSpace :: "char \<Rightarrow> bool" where
  "isSpace c = ((of_char c :: nat) \<in> {32, 9, 10, 11, 12, 13})"

definition isDigit :: "char \<Rightarrow> bool" where
  "isDigit c = (48 \<le> (of_char c :: nat) \<and> (of_char c :: nat) \<le> 57)"

definition spacesDigit :: "string \<Rightarrow> bool" where
  "spacesDigit s = (case dropWhile isSpace s of [] \<Rightarrow> False | c # _ \<Rightarrow> isDigit c)"

fun anyAfter :: "string \<Rightarrow> (string \<Rightarrow> bool) \<Rightarrow> string \<Rightarrow> bool" where
  "anyAfter w k [] = (w = [] \<and> k [])"
| "anyAfter w k (c # cs) =
     ((startsWith (c # cs) w \<and> k (drop (length w) (c # cs))) \<or> anyAfter w k cs)"

text \<open>\<^verbatim>\<open>/tests?\s+rung?:\s*\d+/i\<close> after the word \<open>test\<close>: an optional \<open>s\<close>, at least
  one space, \<open>run\<close>, an optional \<open>g\<close>, a colon, then \<^verbatim>\<open>\s*\d+\<close>.\<close>

definition afterRun :: "string \<Rightarrow> bool" where
  "afterRun s =
     ((startsWith s '':'' \<and> spacesDigit (drop 1 s))
      \<or> (startsWith s ''g:'' \<and> spacesDigit (drop 2 s)))"

definition spacesRun :: "string \<Rightarrow> bool" where
  "spacesRun s =
     (case s of [] \<Rightarrow> False
      | c # _ \<Rightarrow> isSpace c \<and> startsWith (dropWhile isSpace s) ''run''
                 \<and> afterRun (drop 3 (dropWhile isSpace s)))"

definition afterTest :: "string \<Rightarrow> bool" where
  "afterTest s = (spacesRun s \<or> (startsWith s ''s'' \<and> spacesRun (drop 1 s)))"

definition hasTestOutput :: "string \<Rightarrow> bool" where
  "hasTestOutput c =
     (let l = toLowerCase c in
      anyAfter ''passed:'' spacesDigit l
      \<or> anyAfter ''failed:'' spacesDigit l
      \<or> includesStr c [CHR 0xE2, CHR 0x9C, CHR 0x93] \<or> includesStr c [CHR 0xE2, CHR 0x9C, CHR 0x94]
      \<or> includesStr l ''pass'' \<or> includesStr l ''fail''
      \<or> anyAfter ''test'' afterTest l
      \<or> includesStr l ''pass'' \<or> includesStr l ''fail'')"

text \<open>The checks on the evidence file, inside the inner \<^verbatim>\<open>try\<close>. Errors pushed before a
  failing read stay in the list.\<close>

definition evidenceFileErrors :: "fs_env \<Rightarrow> string \<Rightarrow> bool \<Rightarrow> string list" where
  "evidenceFileErrors env p isDocStage =
     (case files env (resolvePath env p) of
        None \<Rightarrow> [''Evidence file does not exist: '' @ p]
      | Some node \<Rightarrow>
          (let ageMs = now env - mtimeMs node;
               recent = (if ageMs < 100
                         then [''Evidence file created too recently ('' @ showInt ageMs
                               @ ''ms), appears fake: '' @ p]
                         else []);
               empty = (if size node = 0 then [''Evidence file is empty: '' @ p] else [])
           in case content node of
                None \<Rightarrow> recent @ empty @ [''Error checking evidence file: read failed'']
              | Some c \<Rightarrow>
                  recent @ empty @ fakeMarkerErrors c p
                  @ (if \<not> isDocStage \<and> \<not> hasTestOutput c
                     then [''Evidence file lacks actual test output: '' @ p] else [])))"

definition defaultFixLog :: string where
  "defaultFixLog =
     ''/home/optimistprime/.openclaw/workspace/skills/sequential-agent-queue/fix-log-enhancement.md''"

definition fixLogErrors :: "fs_env \<Rightarrow> string option \<Rightarrow> bool \<Rightarrow> string list" where
  "fixLogErrors env fl isDocStage =
     (if truthy fl \<or> isDocStage
      then (let fixLogPath = (if isDocStage \<and> \<not> truthy fl then defaultFixLog else the fl)
            in if files env (resolvePath env fixLogPath) = None
               then [''Fix log does not exist: '' @ fixLogPath] else [])
      else [])"

text \<open>\<^verbatim>\<open>validateCompletionEvidence(output, stageName, isDocStage)\<close>. The stage name is
  only logged.\<close>

definition validateCompletionEvidence :: "fs_env \<Rightarrow> string \<Rightarrow> string \<Rightarrow> bool \<Rightarrow> validation" where
  "validateCompletionEvidence env output stageName isDocStage =
     (case matchEvidenceObject output of
        None \<Rightarrow>
          \<lparr>valid = False, found = None,
           errors = [''No completionEvidence object found in agent output'']\<rparr>
      | Some json \<Rightarrow>
          (case parseJSON env json of
             Inl msg \<Rightarrow>
               \<lparr>valid = False, found = None,
                errors = [''Failed to parse evidence JSON: '' @ msg]\<rparr>
           | Inr ev \<Rightarrow>
               (let errs =
                      (if \<not> isDocStage \<and> \<not> truthy (filePath ev) \<and> \<not> truthy (fixLog ev)
                       then [''Evidence missing required fields: filePath or fixLog''] else [])
                      @ (if truthy (filePath ev)
                         then evidenceFileErrors env (the (filePath ev)) isDocStage else [])
                      @ fixLogErrors env (fixLog ev) isDocStage
                in \<lparr>valid = (errs = []), found = Some ev, errors = errs\<rparr>)))"

section \<open>Stage executor\<close>

datatype status = pending | complete | failed | skipped

text \<open>
  A stage result as \<^verbatim>\<open>queue.js\<close> builds and reads it. A completed stage carries
  \<^verbatim>\<open>attempts\<close>, \<^verbatim>\<open>sessionId\<close>, \<^verbatim>\<open>evidence\<close> and \<^verbatim>\<open>sessionTranscript\<close>; a failed one
  carries \<^verbatim>\<open>error: {message, attempts}\<close> (here \<open>failure\<close>) and no top-level
  \<^verbatim>\<open>attempts\<close>; a skipped one \<^verbatim>\<open>unmetDependencies\<close> and \<^verbatim>\<open>attempts: 0\<close>. The field
  \<^verbatim>\<open>transcript\<close> is the one \<^verbatim>\<open>checkCriticalGaps\<close> reads. Time stamps, durations and
  the git record are left out.
\<close>

record stage_result =
  status :: status
  "output" :: "string option"
  "file" :: "string option"
  attempts :: "nat option"
  sessionId :: "string option"
  evidence :: "evidence option"
  sessionTranscript :: "(string \<times> string) list option"
  transcript :: "string option"
  failure :: "(string \<times> nat) option"
  unmetDependencies :: "string list option"

text \<open>A session as \<^verbatim>\<open>openclaw sessions --json\<close> lists it; \<open>updatedAt\<close> in milliseconds.\<close>

record session =
  sid :: string
  updatedAt :: "int option"

text \<open>
  \<^verbatim>\<open>detectAbandonedStage(sessionId, stageName, workingDir)\<close>, given what it reads: the
  session list (\<open>None\<close> when the command fails or does not yield an array), the clock,
  and the listing of the output directory (\<open>None\<close> when \<^verbatim>\<open>readdir\<close> throws).
\<close>

definition detectAbandonedStage ::
  "session list option \<Rightarrow> string \<Rightarrow> int \<Rightarrow> string list option \<Rightarrow> bool" where
  "detectAbandonedStage sessionList sessId nowMs listing =
     (case sessionList of
        None \<Rightarrow> False
      | Some ss \<Rightarrow>
          (case find (\<lambda>s. sid s = sessId) ss of
             None \<Rightarrow> False
           | Some s \<Rightarrow>
               (let lastUpdated = (case updatedAt s of None \<Rightarrow> 0 | Some t \<Rightarrow> t) in
                if nowMs - lastUpdated > 600 * 1000
                then (let hasOutputFiles =
                            (case listing of None \<Rightarrow> False | Some fs \<Rightarrow> fs \<noteq> [])
                      in \<not> hasOutputFiles)
                else False)))"

text \<open>
  Everything one attempt observes from outside: what the spawner does (throws, or
  returns a session id and an output), what \<^verbatim>\<open>waitForCompletion\<close> does (throws on
  timeout, or returns the transcript as role and content pairs), the inputs of the
  abandonment check, whether writing the output file works, and the validator's
  view of the disk and the clock.
\<close>

record attempt_obs =
  spawned :: "string + (string option \<times> string option)"
  completion :: "string + (string \<times> string) list option"
  sessions :: "session list option"
  checkedAt :: int
  outputFiles :: "string list option"
  saved :: "string + string"
  disk :: fs_env

definition isDocStageName :: "string \<Rightarrow> bool" where
  "isDocStageName stageName =
     (let l = toLowerCase stageName in
      includesStr l ''doc'' \<or> includesStr l ''design'' \<or> includesStr l ''api''
      \<or> includesStr l ''requirements'')"

fun joinWith :: "string \<Rightarrow> string list \<Rightarrow> string" where
  "joinWith sep [] = []"
| "joinWith sep [x] = x"
| "joinWith sep (x # y # ys) = x @ sep @ joinWith sep (y # ys)"

text \<open>\<^verbatim>\<open>transcript.map(m => `[${m.role || 'assistant'}] ${m.content || ''}`).join('\n\n')\<close>\<close>

definition formatTranscript :: "(string \<times> string) list \<Rightarrow> string" where
  "formatTranscript ms =
     joinWith [CHR 0x0A, CHR 0x0A]
       (map (\<lambda>(role, c). ''['' @ (if role = [] then ''assistant'' else role) @ ''] '' @ c) ms)"

text \<open>
  \<^verbatim>\<open>sessionInfo\<close> is declared outside the retry loop: it is \<^verbatim>\<open>null\<close> (\<open>None\<close>) until an
  attempt has waited for a session, and then keeps the transcript that wait
  returned, also through later attempts that have no session.
\<close>

definition sessionInfoAfter ::
  "attempt_obs \<Rightarrow> (string \<times> string) list option option \<Rightarrow> (string \<times> string) list option option" where
  "sessionInfoAfter obs info =
     (case spawned obs of
        Inl msg \<Rightarrow> info
      | Inr (sess, out) \<Rightarrow>
          if truthy sess
          then (case completion obs of Inl msg \<Rightarrow> info | Inr tr \<Rightarrow> Some tr)
          else info)"

text \<open>
  The body of the \<^verbatim>\<open>try\<close> block of one attempt: \<open>Inl\<close> is the message of the error it
  throws, \<open>Inr\<close> the stage result it returns.
\<close>

definition runAttempt ::
  "string \<Rightarrow> attempt_obs \<Rightarrow> nat \<Rightarrow> (string \<times> string) list option option
     \<Rightarrow> string + stage_result" where
  "runAttempt stageName obs attempt info =
     (case spawned obs of
        Inl msg \<Rightarrow> Inl msg
      | Inr (sess, out) \<Rightarrow>
          (let output0 = (if truthy out then the out else ''(No output)'') in
           case (if truthy sess then completion obs else Inr None) of
             Inl msg \<Rightarrow> Inl msg
           | Inr tr \<Rightarrow>
               (let output1 = (case tr of
                                 None \<Rightarrow> output0
                               | Some ms \<Rightarrow> if ms \<noteq> [] then formatTranscript ms else output0)
                in if truthy sess
                      \<and> detectAbandonedStage (sessions obs) (the sess) (checkedAt obs) (outputFiles obs)
                   then Inl (abandonedMessage stageName)
                   else (case saved obs of
                           Inl msg \<Rightarrow> Inl msg
                         | Inr outputFile \<Rightarrow>
                             (let v = validateCompletionEvidence (disk obs) output1 stageName
                                        (isDocStageName stageName)
                              in if \<not> valid v
                                 then Inl (''Stage '' @ [CHR 0x22] @ stageName @ [CHR 0x22]
                                           @ '' failed evidence validation: ''
                                           @ joinWith ''; '' (errors v))
                                 else Inr \<lparr>status = complete, output = Some output1,
                                          file = Some outputFile, attempts = Some attempt,
                                          sessionId = sess, evidence = found v,
                                          sessionTranscript =
                                            (case sessionInfoAfter obs info of
                                               None \<Rightarrow> None
                                             | Some t \<Rightarrow> t),
                                          transcript = None, failure = None,
                                          unmetDependencies = None\<rparr>)))))"

text \<open>
  The retry loop of \<^verbatim>\<open>executeStage\<close>, from attempt number \<open>attempt\<close> on. \<open>observe\<close>
  supplies what each attempt sees and threads the outside world \<open>w\<close>; \<open>stringify\<close>
  stands for \<^verbatim>\<open>JSON.stringify\<close> of the error report (stage, attempts, last error).
  \<open>errorHandler\<close> and \<open>checkpoint\<close> tell whether those optional modules are loaded.

  In the \<^verbatim>\<open>catch\<close> block, the argument of \<^verbatim>\<open>errorHandler.handleWorkflowError\<close> and the
  one of \<^verbatim>\<open>checkpoint\<close> both read \<^verbatim>\<open>result?.sessionId\<close>. \<^verbatim>\<open>result\<close> is declared with
  \<^verbatim>\<open>const\<close> inside the \<^verbatim>\<open>try\<close> block and is not in scope in the \<^verbatim>\<open>catch\<close> block, so
  with either module loaded the evaluation throws a ReferenceError out of the loop.
  Otherwise \<^verbatim>\<open>errorHandlingResult\<close> is \<^verbatim>\<open>null\<close> and \<^verbatim>\<open>shouldRetry\<close> is
  \<^verbatim>\<open>attempt <= maxRetries\<close>.

  The result also counts the attempts made, each of which calls the spawner once,
  and the attempts that failed. \<open>made\<close> is the number of attempts before this one.
\<close>

record modules =
  errorHandler :: bool
  resourceManager :: bool
  persistence :: bool
  checkpoint :: bool

record 'w stage_run =
  outcome :: "string + stage_result"
  attemptsMade :: nat
  failuresSeen :: nat
  world :: 'w

function attemptLoop ::
  "('w \<Rightarrow> string \<Rightarrow> nat \<Rightarrow> attempt_obs \<times> 'w) \<Rightarrow> (string \<Rightarrow> nat \<Rightarrow> string \<Rightarrow> string) \<Rightarrow> modules
     \<Rightarrow> string \<Rightarrow> nat \<Rightarrow> nat \<Rightarrow> string option \<Rightarrow> (string \<times> string) list option option
     \<Rightarrow> nat \<Rightarrow> 'w \<Rightarrow> 'w stage_run" where
  "attemptLoop observe stringify mods stageName maxRetries attempt lastError info made w =
     (if attempt \<le> maxRetries + 1
      then (case observe w stageName attempt of
              (obs, w') \<Rightarrow>
                (case runAttempt stageName obs attempt info of
                   Inr r \<Rightarrow> \<lparr>outcome = Inr r, attemptsMade = made + 1, failuresSeen = made,
                            world = w'\<rparr>
                 | Inl msg \<Rightarrow>
                     if errorHandler mods \<or> checkpoint mods
                     then \<lparr>outcome = Inl ''result is not defined'',
                           attemptsMade = made + 1, failuresSeen = made + 1, world = w'\<rparr>
                     else (let shouldRetry = (attempt \<le> maxRetries)
                           in if \<not> shouldRetry
                              then \<lparr>outcome = Inl (stringify stageName (maxRetries + 1) msg),
                                    attemptsMade = made + 1, failuresSeen = made + 1,
                                    world = w'\<rparr>
                              else attemptLoop observe stringify mods stageName maxRetries
                                     (attempt + 1) (Some msg) (sessionInfoAfter obs info)
                                     (made + 1) w')))
      else \<lparr>outcome =
               (case lastError of
                  None \<Rightarrow> Inl ''Cannot read properties of null''
                | Some msg \<Rightarrow> Inl (stringify stageName (maxRetries + 1) msg)),
            attemptsMade = made, failuresSeen = made, world = w\<rparr>)"
  by pat_completeness auto
termination
  by (relation "measure (\<lambda>(observe, stringify, mods, stageName, maxRetries, attempt,
                           lastError, info, made, w). maxRetries + 2 - attempt)") auto

declare attemptLoop.simps [simp del]

text \<open>
  \<^verbatim>\<open>executeStage(stage, workflow, stageOutputs, context, agentSpawner)\<close>. An error
  while the task text is built fails the stage before any attempt; the one of the
  \<^verbatim>\<open>contextFrom\<close> callback is wrapped. \<open>maxRetries\<close> is
  \<^verbatim>\<open>stage.retries !== undefined ? stage.retries : (workflow.retryOnFailure || 0)\<close>.
\<close>

definition effectiveRetries :: "stage \<Rightarrow> nat option \<Rightarrow> nat" where
  "effectiveRetries st retryOnFailure =
     (case retries st of
        Some r \<Rightarrow> r
      | None \<Rightarrow> (case retryOnFailure of None \<Rightarrow> 0 | Some r \<Rightarrow> r))"

definition executeStage ::
  "('w \<Rightarrow> string \<Rightarrow> nat \<Rightarrow> attempt_obs \<times> 'w) \<Rightarrow> (string \<Rightarrow> nat \<Rightarrow> string \<Rightarrow> string) \<Rightarrow> modules
     \<Rightarrow> stage \<Rightarrow> nat option \<Rightarrow> 'w \<Rightarrow> 'w stage_run" where
  "executeStage observe stringify mods st retryOnFailure w =
     (case preparation st of
        ContextFromThrows msg \<Rightarrow>
          \<lparr>outcome = Inl (''contextFrom callback failed for stage '' @ [CHR 0x22] @ name st
                          @ [CHR 0x22] @ '': '' @ msg),
           attemptsMade = 0, failuresSeen = 0, world = w\<rparr>
      | InjectContextThrows msg \<Rightarrow>
          \<lparr>outcome = Inl msg, attemptsMade = 0, failuresSeen = 0, world = w\<rparr>
      | Ready \<Rightarrow>
          attemptLoop observe stringify mods (name st)
            (effectiveRetries st retryOnFailure) 1 None None 0 w)"

text \<open>
  The stage result the scheduler records for a run of \<^verbatim>\<open>executeStage\<close>: the result it
  returned, or, when it threw, the failed result built in the \<^verbatim>\<open>catch\<close> block of
  \<^verbatim>\<open>executeWorkflow\<close>, whose \<^verbatim>\<open>error.attempts\<close> is the retry limit plus one.
\<close>

definition failedResultFor :: "stage \<Rightarrow> nat option \<Rightarrow> string \<Rightarrow> stage_result" where
  "failedResultFor st retryOnFailure message =
     \<lparr>status = failed, output = None, file = None, attempts = None, sessionId = None,
      evidence = None, sessionTranscript = None, transcript = None,
      failure = Some (message, effectiveRetries st retryOnFailure + 1),
      unmetDependencies = None\<rparr>"

definition recordedResult :: "stage \<Rightarrow> nat option \<Rightarrow> 'w stage_run \<Rightarrow> stage_result" where
  "recordedResult st retryOnFailure run =
     (case outcome run of
        Inr r \<Rightarrow> r
      | Inl message \<Rightarrow> failedResultFor st retryOnFailure message)"

section \<open>Critical gap detection\<close>

text \<open>
  A gap entry of the evidence file. \<^verbatim>\<open>gap.status\<close> is a string, absent, or some
  other truthy value, on which \<^verbatim>\<open>.toLowerCase()\<close> throws a TypeError.
\<close>

datatype js_value = Undefined | Str string | NonString

record gap =
  priority :: "string option"
  gapStatus :: js_value

text \<open>
  What \<^verbatim>\<open>JSON.parse\<close> of the evidence file yields, as far as it is read: nothing
  (it throws), an object without a \<^verbatim>\<open>gaps\<close> array, or one with it.
\<close>

datatype evidence_file = Unparseable | NoGapsArray | GapsArray "gap list"

text \<open>
  What the check reads from outside: \<^verbatim>\<open>fs.readFileSync\<close> (\<open>None\<close> when it throws),
  \<^verbatim>\<open>JSON.parse\<close>, and the number of matches of the fallback regular expression
  \<^verbatim>\<open>/gap[^\n]+?high|high[^\n]+?gap|critical[^\n]+?gap|priority:\s*high/gi\<close> in the
  transcript text.
\<close>

record gap_env =
  readFileSync :: "string \<Rightarrow> string option"
  parseGaps :: "string \<Rightarrow> evidence_file"
  gapMentions :: "string \<Rightarrow> nat"

record gap_check =
  hasCriticalGaps :: bool
  gapCount :: nat
  gaps :: "gap list option"

definition settledStatuses :: "string list" where
  "settledStatuses = [''resolved'', ''deferred'', ''mitigated'', ''accepted-risk'']"

text \<open>The filter predicate; \<open>None\<close> when it throws.\<close>

definition isCriticalGap :: "gap \<Rightarrow> bool option" where
  "isCriticalGap g =
     (if priority g = Some ''HIGH''
      then (case gapStatus g of
              Undefined \<Rightarrow> Some False
            | Str s \<Rightarrow> Some (s \<noteq> [] \<and> toLowerCase s \<notin> set settledStatuses)
            | NonString \<Rightarrow> None)
      else Some False)"

text \<open>
  \<^verbatim>\<open>checkCriticalGaps(stageOutput)\<close>. \<open>None\<close> is the bare \<^verbatim>\<open>false\<close> it returns when the
  stage output, its \<^verbatim>\<open>transcript\<close> or its \<^verbatim>\<open>evidence\<close> is missing; the caller then
  reads \<^verbatim>\<open>hasCriticalGaps\<close> off it as \<^verbatim>\<open>undefined\<close>. Any exception inside the
  \<^verbatim>\<open>try\<close> gives \<^verbatim>\<open>{hasCriticalGaps: false}\<close>.
\<close>

definition noCriticalGaps :: gap_check where
  "noCriticalGaps = \<lparr>hasCriticalGaps = False, gapCount = 0, gaps = None\<rparr>"

definition transcriptFallback :: "gap_env \<Rightarrow> string \<Rightarrow> gap_check" where
  "transcriptFallback env text =
     (if gapMentions env text > 2
      then \<lparr>hasCriticalGaps = True, gapCount = gapMentions env text, gaps = None\<rparr>
      else noCriticalGaps)"

definition checkCriticalGaps :: "gap_env \<Rightarrow> stage_result option \<Rightarrow> gap_check option" where
  "checkCriticalGaps env stageOutput =
     (case stageOutput of
        None \<Rightarrow> None
      | Some so \<Rightarrow>
          (if \<not> truthy (transcript so) \<or> evidence so = None then None
           else (let ev = the (evidence so); text = the (transcript so) in
                 if truthy (filePath ev)
                 then (case readFileSync env (the (filePath ev)) of
                         None \<Rightarrow> Some noCriticalGaps
                       | Some evidenceContent \<Rightarrow>
                           (case parseGaps env evidenceContent of
                              Unparseable \<Rightarrow> Some noCriticalGaps
                            | NoGapsArray \<Rightarrow> Some (transcriptFallback env text)
                            | GapsArray gs \<Rightarrow>
                                if None \<in> set (map isCriticalGap gs) then Some noCriticalGaps
                                else (let criticalGaps = filter (\<lambda>g. isCriticalGap g = Some True) gs
                                      in if length criticalGaps > 0
                                         then Some \<lparr>hasCriticalGaps = True,
                                                    gapCount = length criticalGaps,
                                                    gaps = Some criticalGaps\<rparr>
                                         else Some (transcriptFallback env text))))
                 else Some (transcriptFallback env text))))"

section \<open>Workflow state store\<close>

text \<open>
  One entry of the iteration history, and the context object carried through
  \<^verbatim>\<open>executeWorkflow\<close>, reduced to the keys the scheduler reads. A key is \<open>None\<close> when
  it is missing.
\<close>

record iteration_record =
  recIteration :: int
  recOutputs :: "(string \<times> stage_result) list"
  recGaps :: "gap list option"

record wf_context =
  iteration :: "int option"
  workflowId :: "string option"
  requireResume :: "bool option"
  previousIterations :: "iteration_record list option"

datatype wf_status = Running | Paused | Completed | Failed | Cancelled

text \<open>
  The persisted workflow state of \<^verbatim>\<open>persistence.js\<close>. \<open>stateId\<close>, \<open>wfStatus\<close>,
  \<open>stateIteration\<close>, \<open>stateMaxIterations\<close> and \<open>stateContext\<close> are its \<^verbatim>\<open>workflowId\<close>,
  \<^verbatim>\<open>status\<close>, \<^verbatim>\<open>iteration\<close>, \<^verbatim>\<open>maxIterations\<close> and \<^verbatim>\<open>context\<close>. Time stamps and the
  unused \<^verbatim>\<open>metadata\<close> are left out.
\<close>

record workflow_state =
  stateId :: string
  workflowName :: string
  wfStatus :: wf_status
  stateIteration :: int
  stateMaxIterations :: int
  completedStages :: "string list"
  failedStage :: "string option"
  pausedStage :: "string option"
  stageOutputs :: "(string \<times> stage_result) list"
  stateContext :: wf_context
  executionOrder :: "string list"
  errorMessage :: "string option"

text \<open>
  The state directory: one JSON file per workflow id. File system failures of the
  store itself are not modelled.
\<close>

type_synonym store = "string \<Rightarrow> workflow_state option"

text \<open>
  The constructor, as \<^verbatim>\<open>fromJSON\<close> applies it to a parsed file: every
  \<^verbatim>\<open>options.x || default\<close> turns a falsy value into the default.
\<close>

definition orNull :: "string option \<Rightarrow> string option" where
  "orNull f = (if truthy f then f else None)"

definition fromJSON :: "workflow_state \<Rightarrow> workflow_state" where
  "fromJSON json =
     json\<lparr>stateMaxIterations := (if stateMaxIterations json = 0 then 3 else stateMaxIterations json),
          failedStage := orNull (failedStage json),
          pausedStage := orNull (pausedStage json),
          errorMessage := orNull (errorMessage json)\<rparr>"

definition saveWorkflowState :: "store \<Rightarrow> workflow_state \<Rightarrow> store" where
  "saveWorkflowState st state = st(stateId state \<mapsto> state)"

definition loadWorkflowState :: "store \<Rightarrow> string \<Rightarrow> workflow_state option" where
  "loadWorkflowState st wid = map_option fromJSON (st wid)"

text \<open>\<^verbatim>\<open>resumeWorkflow(workflowId, workflow)\<close>: throws (\<open>Inl\<close>), or saves and returns the
  state set back to running.\<close>

definition resumeWorkflow :: "store \<Rightarrow> string \<Rightarrow> string + (workflow_state \<times> store)" where
  "resumeWorkflow st wid =
     (case loadWorkflowState st wid of
        None \<Rightarrow> Inl (''Workflow state not found: '' @ wid)
      | Some state \<Rightarrow>
          if wfStatus state = Completed then Inl (''Workflow is already completed: '' @ wid)
          else if wfStatus state = Cancelled then Inl (''Workflow was cancelled: '' @ wid)
          else (let state' = state\<lparr>wfStatus := Running, pausedStage := None,
                                     failedStage := None, errorMessage := None\<rparr>
                in Inr (state', saveWorkflowState st state')))"

definition cancelWorkflow :: "store \<Rightarrow> string \<Rightarrow> bool \<times> store" where
  "cancelWorkflow st wid =
     (case loadWorkflowState st wid of
        None \<Rightarrow> (False, st)
      | Some state \<Rightarrow>
          if wfStatus state = Completed then (False, st)
          else if wfStatus state = Cancelled then (True, st)
          else (True, saveWorkflowState st (state\<lparr>wfStatus := Cancelled\<rparr>)))"

definition updateStageCompletion :: "store \<Rightarrow> string \<Rightarrow> string \<Rightarrow> stage_result \<Rightarrow> store" where
  "updateStageCompletion st wid stageName stageResult =
     (case loadWorkflowState st wid of
        None \<Rightarrow> st
      | Some state \<Rightarrow>
          saveWorkflowState st
            (state\<lparr>completedStages :=
                     (if stageName \<in> set (completedStages state) then completedStages state
                      else completedStages state @ [stageName]),
                   failedStage :=
                     (if failedStage state = Some stageName then None else failedStage state),
                   pausedStage :=
                     (if pausedStage state = Some stageName then None else pausedStage state),
                   stageOutputs := AList.update stageName stageResult (stageOutputs state),
                   errorMessage := None\<rparr>))"

definition updateStageFailure :: "store \<Rightarrow> string \<Rightarrow> string \<Rightarrow> string \<Rightarrow> store" where
  "updateStageFailure st wid stageName message =
     (case loadWorkflowState st wid of
        None \<Rightarrow> st
      | Some state \<Rightarrow>
          saveWorkflowState st
            (state\<lparr>failedStage := Some stageName, errorMessage := Some message,
                   wfStatus := Failed\<rparr>))"

definition markWorkflowCompleted :: "store \<Rightarrow> string \<Rightarrow> store" where
  "markWorkflowCompleted st wid =
     (case loadWorkflowState st wid of
        None \<Rightarrow> st
      | Some state \<Rightarrow>
          saveWorkflowState st
            (state\<lparr>wfStatus := Completed, failedStage := None, pausedStage := None,
                   errorMessage := None\<rparr>))"

definition deleteWorkflowState :: "store \<Rightarrow> string \<Rightarrow> bool \<times> store" where
  "deleteWorkflowState st wid = (st wid \<noteq> None, st(wid := None))"

text \<open>The operations of the store, and a run of them from a given store.\<close>

datatype store_op =
    Save workflow_state
  | StageCompleted string string stage_result
  | StageFailed string string string
  | MarkCompleted string
  | Resume string
  | Cancel string
  | Delete string

fun applyOp :: "store_op \<Rightarrow> store \<Rightarrow> store" where
  "applyOp (Save state) st = saveWorkflowState st state"
| "applyOp (StageCompleted wid n r) st = updateStageCompletion st wid n r"
| "applyOp (StageFailed wid n m) st = updateStageFailure st wid n m"
| "applyOp (MarkCompleted wid) st = markWorkflowCompleted st wid"
| "applyOp (Resume wid) st = (case resumeWorkflow st wid of Inl e \<Rightarrow> st | Inr (s, st') \<Rightarrow> st')"
| "applyOp (Cancel wid) st = snd (cancelWorkflow st wid)"
| "applyOp (Delete wid) st = snd (deleteWorkflowState st wid)"

text \<open>The invariant of a persisted state, and of a whole store.\<close>

definition stateInvariant :: "workflow_state \<Rightarrow> bool" where
  "stateInvariant state =
     (wfStatus state = Completed \<longrightarrow> failedStage state = None \<and> errorMessage state = None)"

definition storeInvariant :: "store \<Rightarrow> bool" where
  "storeInvariant st = (\<forall>wid state. st wid = Some state \<longrightarrow> stateInvariant state)"

fun savedStatesOk :: "store_op \<Rightarrow> bool" where
  "savedStatesOk (Save state) = stateInvariant state"
| "savedStatesOk _ = True"

section \<open>Workflow scheduler\<close>

text \<open>
  A workflow definition. \<open>wfName\<close> is its \<^verbatim>\<open>name\<close>. An optional field is \<open>None\<close> when
  it is undefined.
\<close>

record workflow =
  wfName :: string
  stages :: "stage list"
  stopOnError :: "bool option"
  retryOnFailure :: "nat option"
  iterationEnabled :: "bool option"
  maxIterations :: "int option"

text \<open>
  \<^verbatim>\<open>validateWorkflow(workflow)\<close>, its list of errors; the workflow is valid when the
  list is empty. The checks on the JavaScript type of a field hold by typing here;
  an empty string fails \<^verbatim>\<open>!stage.name\<close> like a missing one.
\<close>

definition stageErrors :: "stage list \<Rightarrow> nat \<times> stage \<Rightarrow> string list" where
  "stageErrors all = (\<lambda>(i, s).
     (if name s = [] then [''Stage '' @ showNat i @ '': stage.name is required and must be a string'']
      else [])
     @ (if task s = [] then [''Stage '' @ showNat i @ '': stage.task is required and must be a string'']
        else [])
     @ (if length (filter (\<lambda>t. name t = name s) all) > 1
        then [''Duplicate stage name: '' @ name s] else []))"

definition unknownDependencyErrors :: "stage list \<Rightarrow> stage \<Rightarrow> string list" where
  "unknownDependencyErrors all s =
     map (\<lambda>dep. ''Stage '' @ [CHR 0x22] @ name s @ [CHR 0x22] @ '' depends on unknown stage: ''
                 @ [CHR 0x22] @ dep @ [CHR 0x22])
       (filter (\<lambda>dep. dep \<notin> set (map name all)) (dependencies s))"

definition validateWorkflow :: "workflow \<Rightarrow> string list" where
  "validateWorkflow flow =
     (if wfName flow = [] then [''workflow.name is required and must be a string''] else [])
     @ (if stages flow = [] then [''workflow.stages must have at least one stage''] else [])
     @ concat (map (stageErrors (stages flow)) (enumerate 0 (stages flow)))
     @ concat (map (unknownDependencyErrors (stages flow)) (stages flow))"

text \<open>The configuration \<^verbatim>\<open>executeWorkflow\<close> derives from the workflow and the context.\<close>

definition stopOnErrorOf :: "workflow \<Rightarrow> bool" where
  "stopOnErrorOf flow = (case stopOnError flow of None \<Rightarrow> True | Some b \<Rightarrow> b)"

definition iterationEnabledOf :: "workflow \<Rightarrow> bool" where
  "iterationEnabledOf flow = (iterationEnabled flow \<noteq> Some False)"

definition maxIterationsOf :: "workflow \<Rightarrow> int" where
  "maxIterationsOf flow = (case maxIterations flow of None \<Rightarrow> 3 | Some m \<Rightarrow> if m = 0 then 3 else m)"

definition currentIterationOf :: "wf_context \<Rightarrow> int" where
  "currentIterationOf ctx = (case iteration ctx of None \<Rightarrow> 0 | Some i \<Rightarrow> i)"

text \<open>\<^verbatim>\<open>{ ...context, ...resumeData.context }\<close>: a key of the stored context wins.\<close>

definition orElse :: "'a option \<Rightarrow> 'a option \<Rightarrow> 'a option" where
  "orElse a b = (case a of None \<Rightarrow> b | Some x \<Rightarrow> Some x)"

definition mergeContext :: "wf_context \<Rightarrow> wf_context \<Rightarrow> wf_context" where
  "mergeContext ctx stored =
     \<lparr>iteration = orElse (iteration stored) (iteration ctx),
      workflowId = orElse (workflowId stored) (workflowId ctx),
      requireResume = orElse (requireResume stored) (requireResume ctx),
      previousIterations = orElse (previousIterations stored) (previousIterations ctx)\<rparr>"

text \<open>
  The collaborators injected from outside, over an abstract outside world \<open>'w\<close>: what
  every attempt of a stage observes, \<^verbatim>\<open>JSON.stringify\<close> of the error report, the
  generated id of a new workflow state, the errors \<^verbatim>\<open>preWorkflowCleanup\<close> reports,
  and what the gap check reads.
\<close>

record 'w ports =
  observe :: "'w \<Rightarrow> string \<Rightarrow> nat \<Rightarrow> attempt_obs \<times> 'w"
  stringify :: "string \<Rightarrow> nat \<Rightarrow> string \<Rightarrow> string"
  newWorkflowId :: "'w \<Rightarrow> string"
  cleanupErrors :: "'w \<Rightarrow> string list"
  gapEnv :: "'w \<Rightarrow> gap_env"

text \<open>The stage results the scheduler writes for a stage it does not execute.\<close>

definition blankResult :: "status \<Rightarrow> stage_result" where
  "blankResult s =
     \<lparr>status = s, output = None, file = None, attempts = None, sessionId = None,
      evidence = None, sessionTranscript = None, transcript = None, failure = None,
      unmetDependencies = None\<rparr>"

definition resumedResult :: stage_result where
  "resumedResult = (blankResult complete)\<lparr>attempts := Some 0\<rparr>"

definition skippedResult :: "string list \<Rightarrow> stage_result" where
  "skippedResult unmetDeps =
     (blankResult skipped)\<lparr>attempts := Some 0, unmetDependencies := Some unmetDeps\<rparr>"

text \<open>
  The state of the stage loop: \<^verbatim>\<open>stageOutputs\<close>, \<^verbatim>\<open>failedStage\<close>, the stage names handed
  to the spawner so far (one entry per call), the store, the outside world, and
  whether the loop died on a stage name that is no stage of the workflow.
\<close>

record 'w loop_state =
  outputsSoFar :: "(string \<times> stage_result) list"
  failedSoFar :: "string option"
  spawnsSoFar :: "string list"
  storeNow :: store
  worldNow :: 'w
  crashed :: bool

definition unmetDependenciesOf :: "(string \<times> stage_result) list \<Rightarrow> stage \<Rightarrow> string list" where
  "unmetDependenciesOf outs st =
     filter (\<lambda>dep. case map_of outs dep of None \<Rightarrow> True | Some r \<Rightarrow> status r \<noteq> complete)
       (dependencies st)"

text \<open>
  The body of the loop over \<^verbatim>\<open>executionOrder\<close> for one stage name, and whether the
  loop goes on after it (it does not after \<^verbatim>\<open>break\<close>, nor when \<^verbatim>\<open>stage.dependencies\<close>
  throws because the name is no stage of the workflow). \<open>resumed\<close> is the state of a
  resumed workflow (when \<^verbatim>\<open>isResume\<close>), \<open>wid\<close> the id of the persisted state (when
  there is one).
\<close>

definition stageStep ::
  "'w ports \<Rightarrow> modules \<Rightarrow> workflow \<Rightarrow> workflow_state option \<Rightarrow> string option
     \<Rightarrow> string \<Rightarrow> 'w loop_state \<Rightarrow> 'w loop_state \<times> bool" where
  "stageStep P mods flow resumed wid stageName ls =
     (if resumed \<noteq> None \<and> stageName \<in> set (completedStages (the resumed))
      then (ls\<lparr>outputsSoFar :=
                 AList.update stageName
                   (case map_of (stageOutputs (the resumed)) stageName of
                      Some r \<Rightarrow> r
                    | None \<Rightarrow> resumedResult)
                   (outputsSoFar ls)\<rparr>, True)
      else (case find (\<lambda>s. name s = stageName) (stages flow) of
              None \<Rightarrow> (ls\<lparr>crashed := True\<rparr>, False)
            | Some st \<Rightarrow>
                if unmetDependenciesOf (outputsSoFar ls) st \<noteq> []
                then (ls\<lparr>outputsSoFar :=
                           AList.update stageName
                             (skippedResult (unmetDependenciesOf (outputsSoFar ls) st))
                             (outputsSoFar ls)\<rparr>, True)
                else (let run = executeStage (observe P) (stringify P) mods st
                                  (retryOnFailure flow) (worldNow ls);
                          spawns' = spawnsSoFar ls @ replicate (attemptsMade run) stageName
                      in case outcome run of
                           Inr r \<Rightarrow>
                             (ls\<lparr>outputsSoFar := AList.update stageName r (outputsSoFar ls),
                                 spawnsSoFar := spawns',
                                 storeNow :=
                                   (case wid of
                                      None \<Rightarrow> storeNow ls
                                    | Some i \<Rightarrow> updateStageCompletion (storeNow ls) i stageName r),
                                 worldNow := world run\<rparr>, True)
                         | Inl message \<Rightarrow>
                             (ls\<lparr>failedSoFar := Some stageName,
                                 outputsSoFar :=
                                   AList.update stageName
                                     (failedResultFor st (retryOnFailure flow) message)
                                     (outputsSoFar ls),
                                 spawnsSoFar := spawns',
                                 storeNow :=
                                   (case wid of
                                      None \<Rightarrow> storeNow ls
                                    | Some i \<Rightarrow>
                                        updateStageFailure (storeNow ls) i stageName message),
                                 worldNow := world run\<rparr>,
                              \<not> stopOnErrorOf flow))))"

fun stageLoop ::
  "'w ports \<Rightarrow> modules \<Rightarrow> workflow \<Rightarrow> workflow_state option \<Rightarrow> string option
     \<Rightarrow> string list \<Rightarrow> 'w loop_state \<Rightarrow> 'w loop_state" where
  "stageLoop P mods flow resumed wid [] ls = ls"
| "stageLoop P mods flow resumed wid (stageName # rest) ls =
     (case stageStep P mods flow resumed wid stageName ls of
        (ls', goOn) \<Rightarrow> if goOn then stageLoop P mods flow resumed wid rest ls' else ls')"

text \<open>One pass of the scheduler over all stages, up to the end of the stage loop.\<close>

datatype wf_error =
    InvalidWorkflow "string list"
  | SortFailed sort_error
  | ResumeFailed string
  | CleanupFailed "string list"
  | StageUndefined

record 'w pass =
  passOrder :: "string list"
  passOutputs :: "(string \<times> stage_result) list"
  passFailed :: "string option"
  passSpawns :: "string list"
  passStore :: store
  passWorld :: 'w
  passContext :: wf_context
  passStateId :: "string option"

text \<open>
  The state \<^verbatim>\<open>executeWorkflow\<close> creates for a workflow that is not resumed; the
  constructor replaces a zero \<^verbatim>\<open>maxIterations\<close> by 3.
\<close>

definition newWorkflowState ::
  "string \<Rightarrow> workflow \<Rightarrow> wf_context \<Rightarrow> string list \<Rightarrow> workflow_state" where
  "newWorkflowState wid flow ctx order =
     \<lparr>stateId = wid, workflowName = wfName flow, wfStatus = Running,
      stateIteration = currentIterationOf ctx, stateMaxIterations = maxIterationsOf flow,
      completedStages = [], failedStage = None, pausedStage = None, stageOutputs = [],
      stateContext = ctx, executionOrder = order, errorMessage = None\<rparr>"

text \<open>
  The state the pass works on: the resumed one when the context names a workflow id
  and the persistence module is loaded (a failing resume throws unless
  \<^verbatim>\<open>requireResume\<close> is \<^verbatim>\<open>false\<close>), else a new one, saved at once, when the module is
  loaded. The result is the resumed state if any, the context merged with the stored
  one, the store, and the id of the persisted state.
\<close>

definition openState ::
  "'w ports \<Rightarrow> modules \<Rightarrow> workflow \<Rightarrow> wf_context \<Rightarrow> string list \<Rightarrow> store \<Rightarrow> 'w
     \<Rightarrow> string + (workflow_state option \<times> wf_context \<times> store \<times> string option)" where
  "openState P mods flow ctx order st w =
     (case (if persistence mods \<and> truthy (workflowId ctx)
            then (case resumeWorkflow st (the (workflowId ctx)) of
                    Inr (state, st') \<Rightarrow>
                      Inr (Some state, mergeContext ctx (stateContext state), st')
                  | Inl e \<Rightarrow>
                      if requireResume ctx \<noteq> Some False then Inl e
                      else Inr (None, ctx, st))
            else Inr (None, ctx, st)) of
        Inl e \<Rightarrow> Inl e
      | Inr (resumed, ctx', st1) \<Rightarrow>
          (case resumed of
             Some state \<Rightarrow> Inr (resumed, ctx', st1, Some (stateId state))
           | None \<Rightarrow>
               if persistence mods
               then Inr (None, ctx',
                         saveWorkflowState st1 (newWorkflowState (newWorkflowId P w) flow ctx' order),
                         Some (newWorkflowId P w))
               else Inr (None, ctx', st1, None)))"

definition initialLoopState :: "store \<Rightarrow> 'w \<Rightarrow> 'w loop_state" where
  "initialLoopState st w =
     \<lparr>outputsSoFar = [], failedSoFar = None, spawnsSoFar = [], storeNow = st, worldNow = w,
      crashed = False\<rparr>"

definition passOf :: "string list \<Rightarrow> wf_context \<Rightarrow> string option \<Rightarrow> 'w loop_state \<Rightarrow> 'w pass" where
  "passOf order ctx' wid ls =
     \<lparr>passOrder = order, passOutputs = outputsSoFar ls, passFailed = failedSoFar ls,
      passSpawns = spawnsSoFar ls, passStore = storeNow ls, passWorld = worldNow ls,
      passContext = ctx', passStateId = wid\<rparr>"

text \<open>
  \<^verbatim>\<open>executeWorkflow\<close> up to the end of the stage loop: validation, sorting, the
  state, the cleanup before the workflow (whose errors throw), the loop.
\<close>

definition runPass ::
  "'w ports \<Rightarrow> modules \<Rightarrow> workflow \<Rightarrow> wf_context \<Rightarrow> store \<Rightarrow> 'w \<Rightarrow> (wf_error \<times> store) + 'w pass" where
  "runPass P mods flow ctx st w =
     (if validateWorkflow flow \<noteq> [] then Inl (InvalidWorkflow (validateWorkflow flow), st)
      else (case topologicalSort (stages flow) of
              Inl e \<Rightarrow> Inl (SortFailed e, st)
            | Inr order \<Rightarrow>
                (case openState P mods flow ctx order st w of
                   Inl e \<Rightarrow> Inl (ResumeFailed e, st)
                 | Inr (resumed, ctx', st2, wid) \<Rightarrow>
                     if resourceManager mods \<and> cleanupErrors P w \<noteq> []
                     then Inl (CleanupFailed (cleanupErrors P w), st2)
                     else if crashed (stageLoop P mods flow resumed wid order
                                        (initialLoopState st2 w))
                     then Inl (StageUndefined,
                               storeNow (stageLoop P mods flow resumed wid order
                                           (initialLoopState st2 w)))
                     else Inr (passOf order ctx' wid
                                 (stageLoop P mods flow resumed wid order
                                    (initialLoopState st2 w))))))"

section \<open>Iteration controller\<close>

datatype iteration_status = NotEnabled | NoGaps | RestartDetected | ReachedMax

datatype decision = Restart wf_context | Finish iteration_status

text \<open>\<^verbatim>\<open>success = failedStage === null && !Object.values(stageOutputs).some(s => s.status === 'failed')\<close>\<close>

definition passSuccess :: "'w pass \<Rightarrow> bool" where
  "passSuccess p =
     (passFailed p = None \<and> \<not> list_ex (\<lambda>(n, r). status r = failed) (passOutputs p))"

text \<open>
  The check for restart conditions after the loop. On a restart the new context
  carries the incremented counter and the history with one more record.
\<close>

definition iterationDecision :: "gap_env \<Rightarrow> workflow \<Rightarrow> int \<Rightarrow> 'w pass \<Rightarrow> decision" where
  "iterationDecision env flow currentIteration p =
     (if passSuccess p \<and> iterationEnabledOf flow
      then (if currentIteration < maxIterationsOf flow
            then (let lastStageOutput =
                        (if passOrder p = [] then None
                         else map_of (passOutputs p) (last (passOrder p)));
                      gapCheck = checkCriticalGaps env lastStageOutput
                  in if (case gapCheck of None \<Rightarrow> False | Some g \<Rightarrow> hasCriticalGaps g)
                     then Restart
                            ((passContext p)
                               \<lparr>iteration := Some (currentIteration + 1),
                                previousIterations :=
                                  Some ((case previousIterations (passContext p) of
                                           None \<Rightarrow> []
                                         | Some h \<Rightarrow> h)
                                        @ [\<lparr>recIteration = currentIteration,
                                            recOutputs = passOutputs p,
                                            recGaps = gaps (the gapCheck)\<rparr>])\<rparr>)
                     else Finish NoGaps)
            else Finish ReachedMax)
      else Finish NotEnabled)"

record iteration_info =
  current :: int
  maxIter :: int
  enabled :: bool
  iterStatus :: iteration_status
  history :: "iteration_record list"

text \<open>
  The aggregate \<^verbatim>\<open>executeWorkflow\<close> returns; \<open>resultStages\<close>, \<open>resultFailedStage\<close>,
  \<open>resultOrder\<close>, \<open>resultWorkflowId\<close> and \<open>iterationInfo\<close> are its \<^verbatim>\<open>stages\<close>,
  \<^verbatim>\<open>failedStage\<close>, \<^verbatim>\<open>executionOrder\<close>, \<^verbatim>\<open>workflowId\<close> and \<^verbatim>\<open>iteration\<close>.
\<close>

record workflow_result =
  success :: bool
  resultStages :: "(string \<times> stage_result) list"
  resultFailedStage :: "string option"
  resultOrder :: "string list"
  resultWorkflowId :: "string option"
  iterationInfo :: iteration_info

text \<open>
  What a call of \<^verbatim>\<open>executeWorkflow\<close> leaves behind: the value it returns or the error
  it throws, every spawner call made (by stage name, across all passes), the
  iteration status each pass logged, the store and the outside world.
\<close>

record 'w run =
  returned :: "wf_error + workflow_result"
  spawnLog :: "string list"
  statusLog :: "iteration_status list"
  finalStore :: store
  finalWorld :: 'w

text \<open>The aggregate of a call that returned.\<close>

definition resultOf :: "'w run \<Rightarrow> workflow_result option" where
  "resultOf r = (case returned r of Inl e \<Rightarrow> None | Inr res \<Rightarrow> Some res)"

definition finishPass :: "workflow \<Rightarrow> int \<Rightarrow> iteration_status \<Rightarrow> 'w pass \<Rightarrow> 'w run" where
  "finishPass flow currentIteration s p =
     \<lparr>returned =
        Inr \<lparr>success = passSuccess p, resultStages = passOutputs p,
             resultFailedStage = passFailed p, resultOrder = passOrder p,
             resultWorkflowId = passStateId p,
             iterationInfo =
               \<lparr>current = currentIteration, maxIter = maxIterationsOf flow,
                enabled = iterationEnabledOf flow, iterStatus = s,
                history = (case previousIterations (passContext p) of None \<Rightarrow> [] | Some h \<Rightarrow> h)\<rparr>\<rparr>,
      spawnLog = passSpawns p,
      statusLog = [s],
      finalStore =
        (case passStateId p of
           None \<Rightarrow> passStore p
         | Some i \<Rightarrow> if passSuccess p then markWorkflowCompleted (passStore p) i else passStore p),
      finalWorld = passWorld p\<rparr>"

text \<open>
  \<^verbatim>\<open>executeWorkflow(workflow, context, agentSpawner)\<close>. A restart is the recursive call
  with the new context; its result is returned as it is.
\<close>

function executeWorkflow ::
  "'w ports \<Rightarrow> modules \<Rightarrow> workflow \<Rightarrow> wf_context \<Rightarrow> store \<Rightarrow> 'w \<Rightarrow> 'w run" where
  "executeWorkflow P mods flow ctx st w =
     (case runPass P mods flow ctx st w of
        Inl (e, st') \<Rightarrow>
          \<lparr>returned = Inl e, spawnLog = [], statusLog = [], finalStore = st', finalWorld = w\<rparr>
      | Inr p \<Rightarrow>
          (case iterationDecision (gapEnv P (passWorld p)) flow (currentIterationOf ctx) p of
             Finish s \<Rightarrow> finishPass flow (currentIterationOf ctx) s p
           | Restart newContext \<Rightarrow>
               (let r = executeWorkflow P mods flow newContext (passStore p) (passWorld p)
                in r\<lparr>spawnLog := passSpawns p @ spawnLog r,
                     statusLog := RestartDetected # statusLog r\<rparr>)))"
  by pat_completeness auto
termination
proof (relation "measure (\<lambda>(P, mods, flow, ctx, st, w). nat (maxIterationsOf flow - currentIterationOf ctx))")
  show "wf (measure (\<lambda>(P, mods, flow, ctx, st, w). nat (maxIterationsOf flow - currentIterationOf ctx)))"
    by simp
next
  fix P :: "'w ports" and mods :: modules and flow :: workflow and ctx :: wf_context
    and st :: store and w :: 'w and p :: "'w pass" and newContext :: wf_context
  assume "iterationDecision (gapEnv P (passWorld p)) flow (currentIterationOf ctx) p = Restart newContext"
  then have "currentIterationOf ctx < maxIterationsOf flow
             \<and> currentIterationOf newContext = currentIterationOf ctx + 1"
    by (auto simp: iterationDecision_def currentIterationOf_def Let_def split: if_splits)
  then show "((P, mods, flow, newContext, passStore p, passWorld p), (P, mods, flow, ctx, st, w))
             \<in> measure (\<lambda>(P, mods, flow, ctx, st, w). nat (maxIterationsOf flow - currentIterationOf ctx))"
    by simp
qed

declare executeWorkflow.simps [simp del]

section \<open>Example inputs\<close>

text \<open>Small concrete inputs on which the results below are instantiated.\<close>

definition exampleState :: workflow_state where
  "exampleState =
     \<lparr>stateId = ''wf-1'', workflowName = ''docs'', wfStatus = Running, stateIteration = 0,
      stateMaxIterations = 3, completedStages = [], failedStage = None, pausedStage = None,
      stageOutputs = [],
      stateContext = \<lparr>iteration = None, workflowId = None, requireResume = None,
                      previousIterations = None\<rparr>,
      executionOrder = [''A'', ''B''], errorMessage = None\<rparr>"

definition exampleOps :: "store_op list" where
  "exampleOps =
     [Save exampleState, StageFailed ''wf-1'' ''A'' ''boom'', Resume ''wf-1'',
      StageCompleted ''wf-1'' ''A'' \<lparr>status = complete, output = None, file = None,
         attempts = Some 1, sessionId = None, evidence = None, sessionTranscript = None,
         transcript = None, failure = None, unmetDependencies = None\<rparr>,
      StageFailed ''wf-1'' ''B'' ''late'', MarkCompleted ''wf-1'', Cancel ''wf-1'']"

definition mkStage :: "string \<Rightarrow> string list \<Rightarrow> stage" where
  "mkStage n deps =
     \<lparr>name = n, task = ''do '' @ n, dependencies = deps, retries = None,
      preparation = Ready\<rparr>"

definition mkWorkflow :: "stage list \<Rightarrow> workflow" where
  "mkWorkflow ss =
     \<lparr>wfName = ''example'', stages = ss, stopOnError = None, retryOnFailure = None,
      iterationEnabled = None, maxIterations = None\<rparr>"

definition chainStages :: "stage list" where
  "chainStages = [mkStage ''A'' [], mkStage ''B'' [''A''], mkStage ''C'' [''B'']]"

definition cycleStages :: "stage list" where
  "cycleStages = [mkStage ''X'' [''Y''], mkStage ''Y'' [''X'']]"

definition emptyContext :: wf_context where
  "emptyContext =
     \<lparr>iteration = None, workflowId = None, requireResume = None, previousIterations = None\<rparr>"

definition noModules :: modules where
  "noModules =
     \<lparr>errorHandler = False, resourceManager = False, persistence = False, checkpoint = False\<rparr>"

text \<open>
  A workflow of one stage whose agent answers at once with a completion evidence
  object pointing at an evidence file, which lists one open gap of high priority.
\<close>

definition quoted :: "string \<Rightarrow> string" where
  "quoted s = [CHR 0x22] @ s @ [CHR 0x22]"

definition gapFileText :: string where
  "gapFileText =
     ''{'' @ quoted ''gaps'' @ '':[{'' @ quoted ''priority'' @ '':'' @ quoted ''HIGH'' @ '',''
       @ quoted ''status'' @ '':'' @ quoted ''open'' @ ''}],'' @ quoted ''tests'' @ '':''
       @ quoted ''PASS'' @ ''}''"

definition agentOutput :: string where
  "agentOutput =
     ''Done. {'' @ quoted ''evidenceType'' @ '': '' @ quoted ''test-output'' @ '', ''
       @ quoted ''filePath'' @ '': '' @ quoted ''/work/gaps.json'' @ ''}''"

definition exampleEvidence :: evidence where
  "exampleEvidence = \<lparr>filePath = Some ''/work/gaps.json'', fixLog = None\<rparr>"

definition exampleDisk :: "int \<Rightarrow> fs_env" where
  "exampleDisk t =
     \<lparr>files = (\<lambda>p. if p = ''/work/gaps.json''
                     then Some \<lparr>mtimeMs = 1000, size = 60, content = Some gapFileText\<rparr>
                     else None),
      now = t, cwd = ''/work'', parseJSON = (\<lambda>s. Inr exampleEvidence)\<rparr>"

definition exampleObs :: attempt_obs where
  "exampleObs =
     \<lparr>spawned = Inr (None, Some agentOutput), completion = Inr None, sessions = None,
      checkedAt = 5000, outputFiles = None,
      saved = Inr ''/work/example/outputs/gap-analysis-output.txt'',
      disk = exampleDisk 5000\<rparr>"

definition exampleGapEnv :: gap_env where
  "exampleGapEnv =
     \<lparr>readFileSync = (\<lambda>p. if p = ''/work/gaps.json'' then Some gapFileText else None),
      parseGaps = (\<lambda>c. GapsArray [\<lparr>priority = Some ''HIGH'', gapStatus = Str ''open''\<rparr>]),
      gapMentions = (\<lambda>t. 0)\<rparr>"

definition examplePorts :: "unit ports" where
  "examplePorts =
     \<lparr>observe = (\<lambda>w n a. (exampleObs, w)),
      stringify = (\<lambda>n a m. n @ '': '' @ m),
      newWorkflowId = (\<lambda>w. ''wf-new''),
      cleanupErrors = (\<lambda>w. []),
      gapEnv = (\<lambda>w. exampleGapEnv)\<rparr>"

definition gapStage :: stage where
  "gapStage = mkStage ''gap-analysis'' []"

definition gapWorkflow :: workflow where
  "gapWorkflow = mkWorkflow [gapStage]"

text \<open>The same collaborators, with a spawner that throws on every call.\<close>

definition failingPorts :: "unit ports" where
  "failingPorts = examplePorts\<lparr>observe := (\<lambda>w n a. (exampleObs\<lparr>spawned := Inl ''spawn refused''\<rparr>, w))\<rparr>"

definition retriedStage :: stage where
  "retriedStage = (mkStage ''build'' [])\<lparr>retries := Some 2\<rparr>"






definition loadedModules :: modules where
  "loadedModules =
     \<lparr>errorHandler = True, resourceManager = True, persistence = True, checkpoint = False\<rparr>"

text \<open>A chain of three stages that goes on after a failure, with a spawner that throws.\<close>

definition lenientChain :: workflow where
  "lenientChain = (mkWorkflow chainStages)\<lparr>stopOnError := Some False\<rparr>"

section \<open>Invariants of the scheduler\<close>

text \<open>
  A property \<open>Q\<close> of stage results holds of every recorded result, in a set of stage
  outputs and in every state of the store. \<open>Q\<close> is recordable when it holds of every
  result the scheduler writes: the placeholder for a resumed stage, a skipped or a
  failed result, and any completed result without a \<^verbatim>\<open>transcript\<close> field (the only
  kind \<^verbatim>\<open>executeStage\<close> returns).
\<close>

definition resultsAll :: "(stage_result \<Rightarrow> bool) \<Rightarrow> (string \<times> stage_result) list \<Rightarrow> bool" where
  "resultsAll Q outs = (\<forall>(n, r) \<in> set outs. Q r)"

definition storeAll :: "(stage_result \<Rightarrow> bool) \<Rightarrow> store \<Rightarrow> bool" where
  "storeAll Q st = (\<forall>wid state. st wid = Some state \<longrightarrow> resultsAll Q (stageOutputs state))"

definition recordable :: "(stage_result \<Rightarrow> bool) \<Rightarrow> bool" where
  "recordable Q =
     (Q resumedResult \<and> (\<forall>u. Q (skippedResult u)) \<and> (\<forall>st rof m. Q (failedResultFor st rof m))
      \<and> (\<forall>r. status r = complete \<and> transcript r = None \<longrightarrow> Q r))"

definition settled :: "stage_result \<Rightarrow> bool" where
  "settled r = (status r = complete \<or> status r = failed \<or> status r = skipped)"

definition noTranscript :: "stage_result \<Rightarrow> bool" where
  "noTranscript r = (transcript r = None)"

section \<open>Correctness of the dependency sorter\<close>

subsection \<open>Building the adjacency lists and the indegrees\<close>

lemma map_of_fold_init:
  "map_of (fold (\<lambda>s al. AList.update (name s) v al) ss al0) n
     = (if n \<in> name ` set ss then Some v else map_of al0 n)"
  by (induction ss arbitrary: al0) (auto simp: update_conv')

lemma map_of_initAdj:
  "map_of (initAdj sts) n = (if n \<in> set (map name sts) then Some [] else None)"
  by (simp add: initAdj_def map_of_fold_init)

lemma map_of_initIndegree:
  "map_of (initIndegree sts) n = (if n \<in> set (map name sts) then Some 0 else None)"
  by (simp add: initIndegree_def map_of_fold_init)

lemma addEdges_spec:
  assumes "\<forall>d \<in> set ds. map_of adj d \<noteq> None"
  shows "\<exists>adj' ind'. addEdges n ds adj ind = Some (adj', ind')
           \<and> (\<forall>d. map_of adj' d = map_option (\<lambda>ns. ns @ replicate (count_list ds d) n) (map_of adj d))
           \<and> (\<forall>m. map_of ind' m = map_option (\<lambda>k. k + (if m = n then int (length ds) else 0)) (map_of ind m))"
  using assms
proof (induction ds arbitrary: adj ind)
  case Nil
  show ?case by (simp add: option.map_ident)
next
  case (Cons dep ds)
  from Cons.prems obtain ns where ns: "map_of adj dep = Some ns" by auto
  let ?adj1 = "AList.update dep (ns @ [n]) adj"
  let ?ind1 = "(case map_of ind n of None \<Rightarrow> ind | Some d \<Rightarrow> AList.update n (d + 1) ind)"
  have pre: "\<forall>d \<in> set ds. map_of ?adj1 d \<noteq> None"
    using Cons.prems by (auto simp: update_conv')
  from Cons.IH [OF pre, of ?ind1] obtain adj' ind' where
    run: "addEdges n ds ?adj1 ?ind1 = Some (adj', ind')"
    and A: "\<forall>d. map_of adj' d = map_option (\<lambda>ns. ns @ replicate (count_list ds d) n) (map_of ?adj1 d)"
    and I: "\<forall>m. map_of ind' m = map_option (\<lambda>k. k + (if m = n then int (length ds) else 0)) (map_of ?ind1 m)"
    by blast
  have eq: "addEdges n (dep # ds) adj ind = Some (adj', ind')"
    using ns run by simp
  have A': "map_of adj' d = map_option (\<lambda>ns. ns @ replicate (count_list (dep # ds) d) n) (map_of adj d)" for d
    using A [rule_format, of d] ns by (auto simp: update_conv' replicate_app_Cons_same)
  have I': "map_of ind' m = map_option (\<lambda>k. k + (if m = n then int (length (dep # ds)) else 0)) (map_of ind m)" for m
    using I [rule_format, of m] by (auto simp: update_conv' split: option.splits)
  show ?case using eq A' I' by blast
qed

lemma buildEdges_spec:
  assumes "\<forall>s \<in> set ss. \<forall>d \<in> set (dependencies s). map_of adj d \<noteq> None"
  shows "\<exists>adj' ind'. buildEdges ss adj ind = Some (adj', ind')
           \<and> (\<forall>d. map_of adj' d = map_option (\<lambda>ns. ns @ dependents ss d) (map_of adj d))
           \<and> (\<forall>m. map_of ind' m = map_option (\<lambda>k. k + int (length (depsOf ss m))) (map_of ind m))"
  using assms
proof (induction ss arbitrary: adj ind)
  case Nil
  show ?case by (simp add: dependents_def depsOf_def option.map_ident)
next
  case (Cons s ss)
  have "\<forall>d \<in> set (dependencies s). map_of adj d \<noteq> None" using Cons.prems by simp
  from addEdges_spec [OF this, of "name s" ind] obtain adj1 ind1 where
    e: "addEdges (name s) (dependencies s) adj ind = Some (adj1, ind1)"
    and A1: "\<forall>d. map_of adj1 d = map_option (\<lambda>ns. ns @ replicate (count_list (dependencies s) d) (name s)) (map_of adj d)"
    and I1: "\<forall>m. map_of ind1 m = map_option (\<lambda>k. k + (if m = name s then int (length (dependencies s)) else 0)) (map_of ind m)"
    by blast
  have pre: "\<forall>s' \<in> set ss. \<forall>d \<in> set (dependencies s'). map_of adj1 d \<noteq> None"
    using Cons.prems A1 by auto
  from Cons.IH [OF pre, of ind1] obtain adj' ind' where
    b: "buildEdges ss adj1 ind1 = Some (adj', ind')"
    and A: "\<forall>d. map_of adj' d = map_option (\<lambda>ns. ns @ dependents ss d) (map_of adj1 d)"
    and I: "\<forall>m. map_of ind' m = map_option (\<lambda>k. k + int (length (depsOf ss m))) (map_of ind1 m)"
    by blast
  have eq: "buildEdges (s # ss) adj ind = Some (adj', ind')" using e b by simp
  have A': "map_of adj' d = map_option (\<lambda>ns. ns @ dependents (s # ss) d) (map_of adj d)" for d
    using A [rule_format, of d] A1 [rule_format, of d]
    by (cases "map_of adj d") (auto simp: dependents_def)
  have I': "map_of ind' m = map_option (\<lambda>k. k + int (length (depsOf (s # ss) m))) (map_of ind m)" for m
    using I [rule_format, of m] I1 [rule_format, of m]
    by (cases "map_of ind m") (auto simp: depsOf_def)
  show ?case using eq A' I' by blast
qed

lemma count_list_replicate: "count_list (replicate k x) y = (if x = y then k else 0)"
  by (induction k) auto

lemma count_list_dependents:
  "count_list (dependents ss d) n = count_list (depsOf ss n) d"
  by (induction ss) (auto simp: dependents_def depsOf_def count_list_replicate)

lemma set_dependents: "set (dependents ss d) \<subseteq> set (map name ss)"
  by (auto simp: dependents_def)


lemma depsOf_outside: "n \<notin> set (map name sts) \<Longrightarrow> depsOf sts n = []"
  by (auto simp: depsOf_def filter_empty_conv)

lemma depRel_depsOf: "(d, n) \<in> depRel sts \<longleftrightarrow> d \<in> set (depsOf sts n)"
  by (auto simp: depRel_def depsOf_def)

lemma build_from_init:
  assumes "depsResolve sts"
  shows "\<exists>adj ind. buildEdges sts (initAdj sts) (initIndegree sts) = Some (adj, ind)
           \<and> (\<forall>d \<in> set (map name sts). map_of adj d = Some (dependents sts d))
           \<and> (\<forall>n \<in> set (map name sts). map_of ind n = Some (int (length (depsOf sts n))))"
proof -
  have pre: "\<forall>s \<in> set sts. \<forall>d \<in> set (dependencies s). map_of (initAdj sts) d \<noteq> None"
    using assms by (auto simp: depsResolve_def map_of_initAdj)
  from buildEdges_spec [OF pre, of "initIndegree sts"] obtain adj ind where
    b: "buildEdges sts (initAdj sts) (initIndegree sts) = Some (adj, ind)"
    and A: "\<forall>d. map_of adj d = map_option (\<lambda>ns. ns @ dependents sts d) (map_of (initAdj sts) d)"
    and I: "\<forall>m. map_of ind m = map_option (\<lambda>k. k + int (length (depsOf sts m))) (map_of (initIndegree sts) m)"
    by blast
  have "\<forall>d \<in> set (map name sts). map_of adj d = Some (dependents sts d)"
    using A by (simp add: map_of_initAdj)
  moreover have "\<forall>n \<in> set (map name sts). map_of ind n = Some (int (length (depsOf sts n)))"
    using I by (simp add: map_of_initIndegree)
  ultimately show ?thesis using b by blast
qed

lemma count_list_pos: "x \<in> set xs \<Longrightarrow> 0 < count_list xs x"
  by (induction xs) auto

lemma decrementAll_spec:
  assumes "\<forall>n \<in> set ns. \<exists>d. map_of ind n = Some d \<and> int (count_list ns n) \<le> d"
  shows "\<exists>ps. snd (decrementAll ns ind q) = q @ ps \<and> distinct ps
           \<and> set ps = {n \<in> set ns. map_of ind n = Some (int (count_list ns n))}
           \<and> (\<forall>n. map_of (fst (decrementAll ns ind q)) n
                     = map_option (\<lambda>d. d - int (count_list ns n)) (map_of ind n))"
  using assms
proof (induction ns arbitrary: ind q)
  case Nil
  show ?case by (simp add: option.map_ident)
next
  case (Cons x rest)
  from Cons.prems obtain d where d: "map_of ind x = Some d"
    and dge: "int (count_list rest x) + 1 \<le> d" by auto
  let ?ind1 = "AList.update x (d - 1) ind"
  let ?q1 = "if d - 1 = 0 then q @ [x] else q"
  have step: "decrementAll (x # rest) ind q = decrementAll rest ?ind1 ?q1"
    using d by simp
  have pre: "\<forall>n \<in> set rest. \<exists>d'. map_of ?ind1 n = Some d' \<and> int (count_list rest n) \<le> d'"
  proof
    fix n assume n: "n \<in> set rest"
    show "\<exists>d'. map_of ?ind1 n = Some d' \<and> int (count_list rest n) \<le> d'"
    proof (cases "n = x")
      case True
      then show ?thesis using dge by (simp add: update_conv')
    next
      case False
      from Cons.prems n obtain d' where "map_of ind n = Some d'" "int (count_list (x # rest) n) \<le> d'"
        by auto
      then show ?thesis using False by (auto simp: update_conv')
    qed
  qed
  from Cons.IH [OF pre, of ?q1] obtain ps where
    q: "snd (decrementAll rest ?ind1 ?q1) = ?q1 @ ps" and dist: "distinct ps"
    and sps: "set ps = {n \<in> set rest. map_of ?ind1 n = Some (int (count_list rest n))}"
    and m: "\<forall>n. map_of (fst (decrementAll rest ?ind1 ?q1)) n
                = map_option (\<lambda>d. d - int (count_list rest n)) (map_of ?ind1 n)"
    by blast
  let ?ps = "(if d - 1 = 0 then [x] else []) @ ps"
  have q': "snd (decrementAll (x # rest) ind q) = q @ ?ps"
    using q step by simp
  have xrest: "d - 1 = 0 \<Longrightarrow> x \<notin> set rest"
  proof
    assume "d - 1 = 0" "x \<in> set rest"
    then have "count_list rest x > 0" by (simp add: count_list_pos)
    with dge \<open>d - 1 = 0\<close> show False by simp
  qed
  have dist': "distinct ?ps"
    using dist sps xrest by auto
  have xcount: "x \<notin> set rest \<Longrightarrow> count_list rest x = 0"
    by (simp add: count_list_0_iff)
  have sps': "set ?ps = {n \<in> set (x # rest). map_of ind n = Some (int (count_list (x # rest) n))}"
  proof (cases "d - 1 = 0")
    case True
    then have d1: "d = 1" by simp
    have c0: "count_list rest x = 0" using xrest [OF True] by (simp add: count_list_0_iff)
    show ?thesis using True sps d d1 c0 xrest [OF True]
      by (auto simp: update_conv')
  next
    case False
    have "x \<in> set rest" if "d = int (count_list rest x) + 1"
    proof (rule ccontr)
      assume "x \<notin> set rest"
      then have "count_list rest x = 0" by (simp add: count_list_0_iff)
      with that False show False by simp
    qed
    then show ?thesis using False sps d
      by (auto simp: update_conv')
  qed
  have m': "map_of (fst (decrementAll (x # rest) ind q)) n
                = map_option (\<lambda>d. d - int (count_list (x # rest) n)) (map_of ind n)" for n
    using m [rule_format, of n] step d
    by (cases "map_of ind n") (auto simp: update_conv')
  show ?case using q' dist' sps' m' by blast
qed

lemma filter_notin_insert:
  "x \<notin> S \<Longrightarrow> length (filter (\<lambda>d. d \<notin> S) xs)
     = length (filter (\<lambda>d. d \<notin> insert x S) xs) + count_list xs x"
  by (induction xs) auto

lemma filter_notin_empty: "(length (filter (\<lambda>d. d \<notin> S) xs) = 0) = (set xs \<subseteq> S)"
  by (induction xs) auto

lemma count_list_mem: "(0 < count_list xs x) = (x \<in> set xs)"
  by (induction xs) auto

lemma kahn_step:
  assumes inv: "kahnInv sts ind (c # q) result visited"
  shows "kahnInv sts (fst (decrementAll (dependents sts c) ind q))
           (snd (decrementAll (dependents sts c) ind q)) (result @ [c]) (insert c visited)"
proof -
  let ?N = "set (map name sts)"
  let ?D = "depsOf sts"
  let ?ns = "dependents sts c"
  let ?left = "\<lambda>R n. length (filter (\<lambda>d. d \<notin> R) (?D n))"
  from inv have vis: "visited = set result"
    and dist: "distinct (result @ c # q)"
    and sub: "set (result @ c # q) \<subseteq> ?N"
    and cnt: "\<And>n. n \<in> ?N \<Longrightarrow> map_of ind n = Some (int (?left (set result) n))"
    and rdy: "\<And>n. n \<in> ?N \<Longrightarrow> (n \<in> set (c # q) \<union> set result) = (set (?D n) \<subseteq> set result)"
    and ord: "\<And>i. i < length result \<Longrightarrow> set (?D (result ! i)) \<subseteq> set (take i result)"
    by (auto simp: kahnInv_def)
  have cN: "c \<in> ?N" and cres: "c \<notin> set result" using sub dist by auto
  have cdeps: "set (?D c) \<subseteq> set result" using rdy [OF cN] by simp
  have nsN: "set ?ns \<subseteq> ?N" by (rule set_dependents)
  have cntns: "count_list ?ns n = count_list (?D n) c" for n
    by (rule count_list_dependents)
  have split: "?left (set result) n = ?left (insert c (set result)) n + count_list (?D n) c" for n
    using cres by (rule filter_notin_insert)
  have pre: "\<forall>n \<in> set ?ns. \<exists>d. map_of ind n = Some d \<and> int (count_list ?ns n) \<le> d"
  proof
    fix n assume "n \<in> set ?ns"
    then have "n \<in> ?N" using nsN by auto
    then show "\<exists>d. map_of ind n = Some d \<and> int (count_list ?ns n) \<le> d"
      using cnt [of n] split [of n] cntns [of n] by simp
  qed
  from decrementAll_spec [OF pre, of q] obtain ps where
    q': "snd (decrementAll ?ns ind q) = q @ ps" and dps: "distinct ps"
    and sps: "set ps = {n \<in> set ?ns. map_of ind n = Some (int (count_list ?ns n))}"
    and ind': "\<And>n. map_of (fst (decrementAll ?ns ind q)) n
                 = map_option (\<lambda>d. d - int (count_list ?ns n)) (map_of ind n)"
    by blast
  have ps_iff: "(n \<in> set ps) = (c \<in> set (?D n) \<and> set (?D n) \<subseteq> insert c (set result))" for n
  proof -
    have mem: "(n \<in> set ?ns) = (c \<in> set (?D n))"
      using count_list_mem [of ?ns n] count_list_mem [of "?D n" c] cntns [of n] by simp
    show ?thesis
    proof (cases "n \<in> set ?ns")
      case True
      then have nN: "n \<in> ?N" using nsN by auto
      have "(map_of ind n = Some (int (count_list ?ns n)))
              = (?left (insert c (set result)) n = 0)"
        using cnt [OF nN] split [of n] cntns [of n] by simp
      also have "\<dots> = (set (?D n) \<subseteq> insert c (set result))"
        by (rule filter_notin_empty)
      finally show ?thesis using True mem sps by simp
    next
      case False
      then show ?thesis using mem sps by simp
    qed
  qed
  have psN: "set ps \<subseteq> ?N" using sps nsN by auto
  have ps_fresh: "n \<notin> set (c # q) \<union> set result" if "n \<in> set ps" for n
  proof -
    from that have "c \<in> set (?D n)" using ps_iff by simp
    then have "\<not> set (?D n) \<subseteq> set result" using cres by auto
    moreover have "n \<in> ?N" using that psN by auto
    ultimately show ?thesis using rdy [of n] by simp
  qed
  have i1: "insert c visited = set (result @ [c])" using vis by simp
  have i2: "distinct ((result @ [c]) @ (q @ ps))"
    using dist dps ps_fresh by auto
  have i3: "set ((result @ [c]) @ (q @ ps)) \<subseteq> ?N" using sub psN by auto
  have i4: "map_of (fst (decrementAll ?ns ind q)) n
              = Some (int (?left (set (result @ [c])) n))" if "n \<in> ?N" for n
    using ind' [of n] cnt [OF that] split [of n] cntns [of n] by simp
  have i5: "(n \<in> set (q @ ps) \<union> set (result @ [c])) = (set (?D n) \<subseteq> set (result @ [c]))"
    if "n \<in> ?N" for n
  proof -
    have "(n \<in> set (q @ ps) \<union> set (result @ [c]))
            = (n \<in> set (c # q) \<union> set result \<or> n \<in> set ps)" by auto
    also have "\<dots> = (set (?D n) \<subseteq> set result
                     \<or> (c \<in> set (?D n) \<and> set (?D n) \<subseteq> insert c (set result)))"
      using rdy [OF that] ps_iff [of n] by simp
    also have "\<dots> = (set (?D n) \<subseteq> set (result @ [c]))" by auto
    finally show ?thesis .
  qed
  have i6: "set (?D ((result @ [c]) ! i)) \<subseteq> set (take i (result @ [c]))"
    if "i < length (result @ [c])" for i
  proof (cases "i < length result")
    case True
    then show ?thesis using ord [OF True] by (simp add: nth_append)
  next
    case False
    then have "i = length result" using that by simp
    then show ?thesis using cdeps by simp
  qed
  show ?thesis
    unfolding kahnInv_def q' using i1 i2 i3 i4 i5 i6 by blast
qed

lemma kahnLoop_inv:
  assumes "\<forall>d \<in> set (map name sts). map_of adj d = Some (dependents sts d)"
    and "kahnInv sts ind q result visited"
  shows "\<exists>res ind'. kahnLoop adj ind q result visited = Inr res \<and> kahnInv sts ind' [] res (set res)"
  using assms
proof (induction adj ind q result visited rule: kahnLoop.induct)
  case (1 adj indegree result visited)
  then have "visited = set result" by (simp add: kahnInv_def)
  with 1 show ?case by auto
next
  case (2 adj indegree current queue result visited)
  from "2.prems"(2) have nv: "current \<notin> visited" and cN: "current \<in> set (map name sts)"
    by (auto simp: kahnInv_def)
  from "2.prems"(1) cN have look: "map_of adj current = Some (dependents sts current)"
    by blast
  have step: "kahnInv sts (fst (decrementAll (dependents sts current) indegree queue))
                (snd (decrementAll (dependents sts current) indegree queue))
                (result @ [current]) (insert current visited)"
    by (rule kahn_step [OF "2.prems"(2)])
  from "2.IH" [OF nv look "2.prems"(1) step] show ?case
    using nv look by simp
qed

lemma kahnInv_initial:
  assumes "uniqueNames sts"
    and "\<forall>n \<in> set (map name sts). map_of ind n = Some (int (length (depsOf sts n)))"
  shows "kahnInv sts ind (filter (\<lambda>n. map_of ind n = Some 0) (map name sts)) [] {}"
  using assms by (auto simp: kahnInv_def uniqueNames_def)

text \<open>What the loop hands to the final length check, for a well-formed stage list.\<close>

lemma kahn_run:
  assumes "uniqueNames sts" and "depsResolve sts"
  shows "\<exists>adj ind res ind'.
           buildEdges sts (initAdj sts) (initIndegree sts) = Some (adj, ind)
           \<and> kahnLoop adj ind (filter (\<lambda>n. map_of ind n = Some 0) (map name sts)) [] {} = Inr res
           \<and> kahnInv sts ind' [] res (set res)"
proof -
  from build_from_init [OF assms(2)] obtain adj ind where
    b: "buildEdges sts (initAdj sts) (initIndegree sts) = Some (adj, ind)"
    and A: "\<forall>d \<in> set (map name sts). map_of adj d = Some (dependents sts d)"
    and I: "\<forall>n \<in> set (map name sts). map_of ind n = Some (int (length (depsOf sts n)))"
    by blast
  from kahnLoop_inv [OF A kahnInv_initial [OF assms(1) I]] b show ?thesis by blast
qed

lemma indexOf_take: "x \<in> set (take i xs) \<Longrightarrow> indexOf xs x < i"
proof (induction xs arbitrary: i)
  case Nil
  then show ?case by simp
next
  case (Cons y ys)
  then show ?case by (cases i) auto
qed

lemma indexOf_nth: "distinct xs \<Longrightarrow> i < length xs \<Longrightarrow> indexOf xs (xs ! i) = i"
proof (induction xs arbitrary: i)
  case Nil
  then show ?case by simp
next
  case (Cons y ys)
  then show ?case by (cases i) auto
qed

text \<open>In an order that satisfies the invariant, an emitted stage comes after its dependencies.\<close>

lemma emitted_after_dependency:
  assumes inv: "kahnInv sts ind' [] res (set res)"
    and n: "n \<in> set res" and d: "d \<in> set (depsOf sts n)"
  shows "d \<in> set res \<and> indexOf res d < indexOf res n"
proof -
  from inv have dist: "distinct res"
    and ord: "\<And>i. i < length res \<Longrightarrow> set (depsOf sts (res ! i)) \<subseteq> set (take i res)"
    by (auto simp: kahnInv_def)
  from n obtain i where i: "i < length res" and ni: "res ! i = n"
    by (auto simp: in_set_conv_nth)
  from ord [OF i] d ni have dt: "d \<in> set (take i res)" by auto
  then have "d \<in> set res" by (rule in_set_takeD)
  moreover have "indexOf res d < indexOf res n"
    using indexOf_take [OF dt] indexOf_nth [OF dist i] ni by simp
  ultimately show ?thesis by simp
qed

lemma emitted_after_ancestor:
  assumes inv: "kahnInv sts ind' [] res (set res)"
    and path: "(a, b) \<in> (depRel sts)\<^sup>+"
  shows "b \<in> set res \<Longrightarrow> a \<in> set res \<and> indexOf res a < indexOf res b"
  using path
proof (induction rule: trancl_induct)
  case (base y)
  then show ?case using emitted_after_dependency [OF inv] by (simp add: depRel_depsOf)
next
  case (step y z)
  from step.hyps(2) step.prems have "y \<in> set res \<and> indexOf res y < indexOf res z"
    using emitted_after_dependency [OF inv] by (simp add: depRel_depsOf)
  with step.IH show ?case by auto
qed

lemma on_cycle_not_emitted:
  assumes "kahnInv sts ind' [] res (set res)" and "(c, c) \<in> (depRel sts)\<^sup>+"
  shows "c \<notin> set res"
  using emitted_after_ancestor [OF assms] by auto

lemma on_cycle_is_stage:
  assumes "(a, c) \<in> (depRel sts)\<^sup>+"
  shows "c \<in> set (map name sts)"
proof -
  from assms obtain b where "(b, c) \<in> depRel sts" by (meson tranclE)
  then show ?thesis by (auto simp: depRel_def)
qed



subsection \<open>The result of the sorter on a well-formed stage list\<close>

lemma topologicalSort_cases:
  assumes "uniqueNames sts" and "depsResolve sts"
  shows "\<exists>res ind'. kahnInv sts ind' [] res (set res)
           \<and> topologicalSort sts
               = (if length res \<noteq> length (map name sts)
                  then Inl (CircularDependencyInvolving
                              (filter (\<lambda>n. n \<notin> set res) (map name sts)))
                  else Inr res)"
proof -
  from kahn_run [OF assms] obtain adj ind res ind' where
    "buildEdges sts (initAdj sts) (initIndegree sts) = Some (adj, ind)"
    "kahnLoop adj ind (filter (\<lambda>n. map_of ind n = Some 0) (map name sts)) [] {} = Inr res"
    "kahnInv sts ind' [] res (set res)"
    by blast
  then show ?thesis by (auto simp: topologicalSort_def)
qed

lemma full_length_iff:
  assumes "kahnInv sts ind' [] res (set res)" and "uniqueNames sts"
  shows "(length res = length (map name sts)) = (set res = set (map name sts))"
proof -
  from assms have d: "distinct res" and s: "set res \<subseteq> set (map name sts)"
    and dn: "distinct (map name sts)"
    by (auto simp: kahnInv_def uniqueNames_def)
  have c1: "card (set res) = length res" using d by (rule distinct_card)
  have c2: "card (set (map name sts)) = length (map name sts)"
    using dn by (rule distinct_card)
  show ?thesis
  proof
    assume "length res = length (map name sts)"
    then have "card (set res) = card (set (map name sts))"
      using c1 c2 by simp
    then show "set res = set (map name sts)"
      using s by (intro card_subset_eq) auto
  next
    assume "set res = set (map name sts)"
    then have "card (set res) = card (set (map name sts))" by simp
    then show "length res = length (map name sts)"
      using c1 c2 by simp
  qed
qed

text \<open>Every order the sorter returns is a topological order of all stage names.\<close>

lemma topologicalSort_Inr:
  assumes u: "uniqueNames sts" and r: "depsResolve sts"
    and ok: "topologicalSort sts = Inr order"
  shows "distinct order \<and> set order = set (map name sts)
         \<and> (\<forall>n \<in> set order. \<forall>d \<in> set (depsOf sts n). indexOf order d < indexOf order n)"
proof -
  from topologicalSort_cases [OF u r] obtain res ind' where
    inv: "kahnInv sts ind' [] res (set res)"
    and ts: "topologicalSort sts
               = (if length res \<noteq> length (map name sts)
                  then Inl (CircularDependencyInvolving
                              (filter (\<lambda>n. n \<notin> set res) (map name sts)))
                  else Inr res)"
    by blast
  from ts ok have len: "length res = length (map name sts)" and eq: "order = res"
    by (auto split: if_splits)
  have "distinct res" using inv by (simp add: kahnInv_def)
  moreover have "set res = set (map name sts)"
    using full_length_iff [OF inv u] len by simp
  moreover have "\<forall>n \<in> set res. \<forall>d \<in> set (depsOf sts n). indexOf res d < indexOf res n"
    using emitted_after_dependency [OF inv] by blast
  ultimately show ?thesis using eq by simp
qed


lemma topologicalSort_cyclic_Inl:
  assumes u: "uniqueNames sts" and r: "depsResolve sts"
    and c: "(c, c) \<in> (depRel sts)\<^sup>+"
  shows "\<exists>remaining. topologicalSort sts = Inl (CircularDependencyInvolving remaining)
           \<and> c \<in> set remaining
           \<and> (\<forall>x. (x, x) \<in> (depRel sts)\<^sup>+ \<longrightarrow> x \<in> set remaining)"
proof -
  from topologicalSort_cases [OF u r] obtain res ind' where
    inv: "kahnInv sts ind' [] res (set res)"
    and ts: "topologicalSort sts
               = (if length res \<noteq> length (map name sts)
                  then Inl (CircularDependencyInvolving
                              (filter (\<lambda>n. n \<notin> set res) (map name sts)))
                  else Inr res)"
    by blast
  have out: "x \<notin> set res \<and> x \<in> set (map name sts)" if "(x, x) \<in> (depRel sts)\<^sup>+" for x
    using on_cycle_not_emitted [OF inv that] on_cycle_is_stage [OF that] by simp
  from out [OF c] have "set res \<noteq> set (map name sts)" by auto
  then have "length res \<noteq> length (map name sts)"
    using full_length_iff [OF inv u] by simp
  then show ?thesis using ts out c by auto
qed

section \<open>Properties of the error classifier\<close>

lemma toLowerCase_append: "toLowerCase (xs @ ys) = toLowerCase xs @ toLowerCase ys"
  by (simp add: toLowerCase_def)

lemma includesStr_append_right: "includesStr ys p \<Longrightarrow> includesStr (xs @ ys) p"
proof (induction xs)
  case Nil
  then show ?case by simp
next
  case (Cons x xs)
  then have "includesStr (xs @ ys) p" by simp
  then show ?case by simp
qed

lemma abandonedMessage_mentions_session:
  "testWords [''spawn'', ''agent'', ''session''] (abandonedMessage n)"
proof -
  have tail: "includesStr (toLowerCase '' was abandoned: session inactive but no output generated'')
                ''session''"
    by code_simp
  have "includesStr (toLowerCase (abandonedMessage n)) ''session''"
    unfolding abandonedMessage_def toLowerCase_append
    by (intro includesStr_append_right) (rule tail)
  then show ?thesis by (simp add: testWords_def)
qed

text \<open>
  Whatever the stage is called, the abandonment error is caught by one of the five
  earlier tests of the classifier (at the latest by the word \<open>session\<close>), so it
  never receives the type \<open>ABANDONED_STAGE\<close>.
\<close>

lemma abandonment_never_classified_abandoned:
  "errType (classifyError (abandonedMessage n)) \<noteq> ABANDONED_STAGE"
  using abandonedMessage_mentions_session [of n]
  by (simp add: classifyError_def classified_def)

text \<open>
  C3. The claim: an abandonment failure is classified under the dedicated abandoned
  error type, is not retryable, and its retry decision is always halt. On the code,
  for the stage \<open>build\<close> on its first attempt with one retry allowed, the abandonment
  error is classified as an agent spawn failure, which is retryable, and the
  decision is to retry.
\<close>

theorem abandoned_stage_is_retried:
  "errType (classifyError (abandonedMessage ''build'')) = AGENT_SPAWN_FAILED
   \<and> retryable (classifyError (abandonedMessage ''build''))
   \<and> decideRecoveryAction (classifyError (abandonedMessage ''build'')) 1 1 = retry
   \<and> handleWorkflowError (abandonedMessage ''build'') 1 1"
  by code_simp

section \<open>The invariant of the workflow state store\<close>

lemma stateInvariant_fromJSON: "stateInvariant s \<Longrightarrow> stateInvariant (fromJSON s)"
  by (auto simp: stateInvariant_def fromJSON_def orNull_def)

lemma loaded_state_ok:
  "storeInvariant st \<Longrightarrow> loadWorkflowState st wid = Some s \<Longrightarrow> stateInvariant s"
  by (auto simp: storeInvariant_def loadWorkflowState_def intro: stateInvariant_fromJSON)

lemma save_ok:
  "storeInvariant st \<Longrightarrow> stateInvariant s \<Longrightarrow> storeInvariant (saveWorkflowState st s)"
  by (auto simp: storeInvariant_def saveWorkflowState_def)

lemma updateStageCompletion_ok:
  assumes "storeInvariant st"
  shows "storeInvariant (updateStageCompletion st wid n r)"
proof (cases "loadWorkflowState st wid")
  case None
  then show ?thesis using assms by (simp add: updateStageCompletion_def)
next
  case (Some s)
  from loaded_state_ok [OF assms Some] have "stateInvariant s" .
  then have "stateInvariant
     (s\<lparr>completedStages := (if n \<in> set (completedStages s) then completedStages s
                              else completedStages s @ [n]),
        failedStage := (if failedStage s = Some n then None else failedStage s),
        pausedStage := (if pausedStage s = Some n then None else pausedStage s),
        stageOutputs := AList.update n r (stageOutputs s),
        errorMessage := None\<rparr>)"
    by (auto simp: stateInvariant_def)
  then show ?thesis using Some assms by (simp add: updateStageCompletion_def save_ok)
qed

lemma updateStageFailure_ok:
  assumes "storeInvariant st"
  shows "storeInvariant (updateStageFailure st wid n m)"
proof (cases "loadWorkflowState st wid")
  case None
  then show ?thesis using assms by (simp add: updateStageFailure_def)
next
  case (Some s)
  have "stateInvariant (s\<lparr>failedStage := Some n, errorMessage := Some m, wfStatus := Failed\<rparr>)"
    by (simp add: stateInvariant_def)
  then show ?thesis using Some assms by (simp add: updateStageFailure_def save_ok)
qed

lemma markWorkflowCompleted_ok:
  assumes "storeInvariant st"
  shows "storeInvariant (markWorkflowCompleted st wid)"
proof (cases "loadWorkflowState st wid")
  case None
  then show ?thesis using assms by (simp add: markWorkflowCompleted_def)
next
  case (Some s)
  have "stateInvariant (s\<lparr>wfStatus := Completed, failedStage := None, pausedStage := None,
                          errorMessage := None\<rparr>)"
    by (simp add: stateInvariant_def)
  then show ?thesis using Some assms by (simp add: markWorkflowCompleted_def save_ok)
qed

lemma resumeWorkflow_ok:
  assumes "storeInvariant st" and "resumeWorkflow st wid = Inr (s, st')"
  shows "storeInvariant st' \<and> wfStatus s = Running"
proof -
  from assms(2) obtain s0 where l: "loadWorkflowState st wid = Some s0"
    and s: "s = s0\<lparr>wfStatus := Running, pausedStage := None, failedStage := None,
                    errorMessage := None\<rparr>"
    and st': "st' = saveWorkflowState st s"
    by (auto simp: resumeWorkflow_def Let_def split: option.splits if_splits)
  have "stateInvariant s" using s by (simp add: stateInvariant_def)
  then show ?thesis using assms(1) st' s by (simp add: save_ok)
qed

lemma cancelWorkflow_ok:
  assumes "storeInvariant st"
  shows "storeInvariant (snd (cancelWorkflow st wid))"
proof (cases "loadWorkflowState st wid")
  case None
  then show ?thesis using assms by (simp add: cancelWorkflow_def)
next
  case (Some s)
  have "stateInvariant (s\<lparr>wfStatus := Cancelled\<rparr>)" by (simp add: stateInvariant_def)
  then show ?thesis using Some assms by (simp add: cancelWorkflow_def save_ok)
qed

lemma deleteWorkflowState_ok:
  "storeInvariant st \<Longrightarrow> storeInvariant (snd (deleteWorkflowState st wid))"
  by (auto simp: storeInvariant_def deleteWorkflowState_def)

lemma applyOp_ok:
  assumes "storeInvariant st" and "savedStatesOk x"
  shows "storeInvariant (applyOp x st)"
proof (cases x)
  case (Save s)
  then show ?thesis using assms by (simp add: save_ok)
next
  case (StageCompleted wid n r)
  then show ?thesis using assms by (simp add: updateStageCompletion_ok)
next
  case (StageFailed wid n m)
  then show ?thesis using assms by (simp add: updateStageFailure_ok)
next
  case (MarkCompleted wid)
  then show ?thesis using assms by (simp add: markWorkflowCompleted_ok)
next
  case (Resume wid)
  then show ?thesis using assms resumeWorkflow_ok [OF assms(1)]
    by (auto split: sum.splits)
next
  case (Cancel wid)
  then show ?thesis using assms by (simp add: cancelWorkflow_ok)
next
  case (Delete wid)
  then show ?thesis using assms by (simp add: deleteWorkflowState_ok)
qed

text \<open>
  C9. Every operation of the state store (save, stage-completion update,
  stage-failure update, mark-completed, resume, cancel, and deletion) keeps the
  invariant that a state with status completed has neither a failed stage nor an
  error message, for every persisted state; a state handed to save is one that
  satisfies it. So the invariant holds after any run of operations.
\<close>

theorem store_invariant_preserved:
  assumes "storeInvariant st" and "list_all savedStatesOk ops"
  shows "storeInvariant (fold applyOp ops st)"
  using assms
proof (induction ops arbitrary: st)
  case Nil
  then show ?case by simp
next
  case (Cons x xs)
  then show ?case by (simp add: applyOp_ok)
qed

theorem store_invariant_preserved_witness:
  "storeInvariant Map.empty \<and> list_all savedStatesOk exampleOps
   \<and> storeInvariant (fold applyOp exampleOps Map.empty)
   \<and> map_option wfStatus (fold applyOp exampleOps Map.empty ''wf-1'') = Some Completed
   \<and> map_option failedStage (fold applyOp exampleOps Map.empty ''wf-1'') = Some None
   \<and> map_option errorMessage (fold applyOp exampleOps Map.empty ''wf-1'') = Some None"
proof -
  have h1: "storeInvariant Map.empty" by (simp add: storeInvariant_def)
  have h2: "list_all savedStatesOk exampleOps"
    by (simp add: exampleOps_def exampleState_def stateInvariant_def)
  have ev: "map_option wfStatus (fold applyOp exampleOps Map.empty ''wf-1'') = Some Completed
   \<and> map_option failedStage (fold applyOp exampleOps Map.empty ''wf-1'') = Some None
   \<and> map_option errorMessage (fold applyOp exampleOps Map.empty ''wf-1'') = Some None"
    by code_simp
  show ?thesis using h1 h2 store_invariant_preserved [OF h1 h2] ev by simp
qed

section \<open>Validation and the sorter inside the scheduler\<close>

lemma distinct_map_if_single:
  assumes "\<forall>s \<in> set xs. length (filter (\<lambda>t. f t = f s) xs) \<le> 1"
  shows "distinct (map f xs)"
  using assms
proof (induction xs)
  case Nil
  then show ?case by simp
next
  case (Cons x xs)
  have notin: "f x \<notin> f ` set xs"
  proof
    assume "f x \<in> f ` set xs"
    then obtain y where y: "y \<in> set xs" "f y = f x" by auto
    then have "filter (\<lambda>t. f t = f x) xs \<noteq> []" by (auto simp: filter_empty_conv)
    then have "length (filter (\<lambda>t. f t = f x) xs) \<ge> 1" by (cases "filter (\<lambda>t. f t = f x) xs") auto
    moreover have "length (filter (\<lambda>t. f t = f x) (x # xs)) \<le> 1" using Cons.prems by auto
    ultimately show False by simp
  qed
  have "\<forall>s \<in> set xs. length (filter (\<lambda>t. f t = f s) xs) \<le> 1"
  proof
    fix s assume s: "s \<in> set xs"
    then have "length (filter (\<lambda>t. f t = f s) (x # xs)) \<le> 1" using Cons.prems by auto
    moreover have "length (filter (\<lambda>t. f t = f s) xs) \<le> length (filter (\<lambda>t. f t = f s) (x # xs))"
      by simp
    ultimately show "length (filter (\<lambda>t. f t = f s) xs) \<le> 1" by linarith
  qed
  from Cons.IH [OF this] notin show ?case by simp
qed

lemma valid_workflow_wellformed:
  assumes "validateWorkflow flow = []"
  shows "uniqueNames (stages flow) \<and> depsResolve (stages flow)"
proof -
  from assms have se: "\<forall>p \<in> set (enumerate 0 (stages flow)). stageErrors (stages flow) p = []"
    and ue: "\<forall>s \<in> set (stages flow). unknownDependencyErrors (stages flow) s = []"
    by (auto simp: validateWorkflow_def)
  have "\<forall>s \<in> set (stages flow). length (filter (\<lambda>t. name t = name s) (stages flow)) \<le> 1"
  proof
    fix s assume "s \<in> set (stages flow)"
    then obtain i where i: "i < length (stages flow)" "stages flow ! i = s"
      by (auto simp: in_set_conv_nth)
    then have "(i, s) \<in> set (enumerate 0 (stages flow))"
      by (simp add: in_set_enumerate_eq)
    with se have "stageErrors (stages flow) (i, s) = []" by blast
    then show "length (filter (\<lambda>t. name t = name s) (stages flow)) \<le> 1"
      by (auto simp: stageErrors_def split: if_splits)
  qed
  then have u: "uniqueNames (stages flow)"
    unfolding uniqueNames_def by (rule distinct_map_if_single)
  have d: "depsResolve (stages flow)"
    using ue by (auto simp: depsResolve_def unknownDependencyErrors_def filter_empty_conv)
  from u d show ?thesis by simp
qed

lemma executeWorkflow_pass_error:
  assumes "runPass P mods flow ctx st w = Inl (e, st')"
  shows "executeWorkflow P mods flow ctx st w
           = \<lparr>returned = Inl e, spawnLog = [], statusLog = [], finalStore = st', finalWorld = w\<rparr>"
  by (subst executeWorkflow.simps) (simp add: assms)

lemma runPass_sort_error:
  assumes "topologicalSort (stages flow) = Inl se"
  shows "\<exists>e. runPass P mods flow ctx st w = Inl (e, st)
             \<and> (validateWorkflow flow = [] \<longrightarrow> e = SortFailed se)"
  using assms by (simp add: runPass_def)

section \<open>The stage executor\<close>

lemma runAttempt_Inr:
  assumes "runAttempt n obs a info = Inr r"
  shows "status r = complete \<and> attempts r = Some a \<and> transcript r = None \<and> failure r = None"
  using assms
  by (auto simp: runAttempt_def Let_def split: sum.splits prod.splits if_splits)

lemma attemptLoop_counts:
  assumes "attempt = made + 1"
  shows "(\<forall>r. outcome (attemptLoop ob sf mods n maxRetries attempt lastError info made w) = Inr r
            \<longrightarrow> status r = complete \<and> transcript r = None
                \<and> attempts r = Some (failuresSeen (attemptLoop ob sf mods n maxRetries attempt lastError info made w) + 1)
                \<and> failuresSeen (attemptLoop ob sf mods n maxRetries attempt lastError info made w) \<le> maxRetries
                \<and> attemptsMade (attemptLoop ob sf mods n maxRetries attempt lastError info made w)
                     = failuresSeen (attemptLoop ob sf mods n maxRetries attempt lastError info made w) + 1)
       \<and> (\<forall>m. outcome (attemptLoop ob sf mods n maxRetries attempt lastError info made w) = Inl m
            \<longrightarrow> attemptsMade (attemptLoop ob sf mods n maxRetries attempt lastError info made w)
                  = failuresSeen (attemptLoop ob sf mods n maxRetries attempt lastError info made w)
                \<and> (attempt \<le> maxRetries + 1 \<and> \<not> errorHandler mods \<and> \<not> checkpoint mods
                     \<longrightarrow> failuresSeen (attemptLoop ob sf mods n maxRetries attempt lastError info made w)
                           = maxRetries + 1))"
  using assms
proof (induction ob sf mods n maxRetries attempt lastError info made w rule: attemptLoop.induct)
  case (1 ob sf mods stageName maxRetries attempt lastError info made w)
  show ?case
  proof (cases "attempt \<le> maxRetries + 1")
    case False
    then have eq: "attemptLoop ob sf mods stageName maxRetries attempt lastError info made w
                  = \<lparr>outcome = (case lastError of
                                   None \<Rightarrow> Inl ''Cannot read properties of null''
                                 | Some msg \<Rightarrow> Inl (sf stageName (maxRetries + 1) msg)),
                     attemptsMade = made, failuresSeen = made, world = w\<rparr>"
      by (subst attemptLoop.simps) simp
    show ?thesis unfolding eq using False by (simp split: option.splits)
  next
    case True
    obtain obs w' where ow: "ob w stageName attempt = (obs, w')" by (cases "ob w stageName attempt")
    show ?thesis
    proof (cases "runAttempt stageName obs attempt info")
      case (Inr r)
      have eq: "attemptLoop ob sf mods stageName maxRetries attempt lastError info made w
                  = \<lparr>outcome = Inr r, attemptsMade = made + 1, failuresSeen = made, world = w'\<rparr>"
        using True ow Inr by (subst attemptLoop.simps) simp
      show ?thesis unfolding eq using runAttempt_Inr [OF Inr] True "1.prems" by simp
    next
      case (Inl msg)
      show ?thesis
      proof (cases "errorHandler mods \<or> checkpoint mods")
        case h: True
        have eq: "attemptLoop ob sf mods stageName maxRetries attempt lastError info made w
                  = \<lparr>outcome = Inl ''result is not defined'', attemptsMade = made + 1,
                     failuresSeen = made + 1, world = w'\<rparr>"
          using True ow Inl h by (subst attemptLoop.simps) simp
        show ?thesis unfolding eq using h by auto
      next
        case h: False
        show ?thesis
        proof (cases "attempt \<le> maxRetries")
          case r: True
          have eq: "attemptLoop ob sf mods stageName maxRetries attempt lastError info made w
                  = attemptLoop ob sf mods stageName maxRetries (attempt + 1) (Some msg)
                      (sessionInfoAfter obs info) (made + 1) w'"
            using h r True ow Inl by (subst attemptLoop.simps) simp
          have ih: "attempt + 1 = made + 1 + 1" using "1.prems" by simp
          from "1.IH" [OF True ow [symmetric] Inl h refl _ ih] r
          show ?thesis unfolding eq using r by simp
        next
          case r: False
          have eq: "attemptLoop ob sf mods stageName maxRetries attempt lastError info made w
                  = \<lparr>outcome = Inl (sf stageName (maxRetries + 1) msg),
                     attemptsMade = made + 1, failuresSeen = made + 1, world = w'\<rparr>"
            using h r True ow Inl by (subst attemptLoop.simps) simp
          show ?thesis unfolding eq using r True "1.prems" by simp
        qed
      qed
    qed
  qed
qed

lemma executeStage_counts:
  "(\<forall>r. outcome (executeStage ob sf mods st rof w) = Inr r
       \<longrightarrow> status r = complete \<and> transcript r = None
           \<and> attempts r = Some (failuresSeen (executeStage ob sf mods st rof w) + 1)
           \<and> failuresSeen (executeStage ob sf mods st rof w) \<le> effectiveRetries st rof)
   \<and> (\<forall>m. outcome (executeStage ob sf mods st rof w) = Inl m
              \<and> preparation st = Ready \<and> \<not> errorHandler mods \<and> \<not> checkpoint mods
       \<longrightarrow> failuresSeen (executeStage ob sf mods st rof w) = effectiveRetries st rof + 1)"
proof (cases "preparation st")
  case (ContextFromThrows msg)
  then show ?thesis by (simp add: executeStage_def)
next
  case (InjectContextThrows msg)
  then show ?thesis by (simp add: executeStage_def)
next
  case Ready
  have one: "(1::nat) = 0 + 1" by simp
  from attemptLoop_counts [OF one, of ob sf mods "name st" "effectiveRetries st rof" None None w]
  show ?thesis using Ready by (simp add: executeStage_def)
qed

section \<open>The stage loop\<close>

lemma set_update_subset: "set (AList.update k v al) \<subseteq> insert (k, v) (set al)"
  by (induction al) auto

lemma resultsSettled_update:
  "resultsAll Q outs \<Longrightarrow> Q r \<Longrightarrow> resultsAll Q (AList.update k r outs)"
  using set_update_subset [of k r outs] by (auto simp: resultsAll_def)

lemma resultsSettled_map_of:
  "resultsAll Q outs \<Longrightarrow> map_of outs k = Some r \<Longrightarrow> Q r"
  by (auto simp: resultsAll_def dest: map_of_SomeD)

lemma loaded_settled:
  "storeAll Q st \<Longrightarrow> loadWorkflowState st wid = Some s \<Longrightarrow> resultsAll Q (stageOutputs s)"
  by (auto simp: storeAll_def loadWorkflowState_def fromJSON_def)

lemma save_settled:
  "storeAll Q st \<Longrightarrow> resultsAll Q (stageOutputs s) \<Longrightarrow> storeAll Q (saveWorkflowState st s)"
  by (auto simp: storeAll_def saveWorkflowState_def)

lemma updateStageCompletion_settled:
  assumes "storeAll Q st" and "Q r"
  shows "storeAll Q (updateStageCompletion st wid n r)"
proof (cases "loadWorkflowState st wid")
  case None
  then show ?thesis using assms by (simp add: updateStageCompletion_def)
next
  case (Some s)
  from loaded_settled [OF assms(1) Some] assms(2)
  have "resultsAll Q (AList.update n r (stageOutputs s))" by (rule resultsSettled_update)
  then show ?thesis using Some assms(1) by (simp add: updateStageCompletion_def save_settled)
qed

lemma updateStageFailure_settled:
  assumes "storeAll Q st"
  shows "storeAll Q (updateStageFailure st wid n m)"
proof (cases "loadWorkflowState st wid")
  case None
  then show ?thesis using assms by (simp add: updateStageFailure_def)
next
  case (Some s)
  from loaded_settled [OF assms Some]
  show ?thesis using Some assms by (simp add: updateStageFailure_def save_settled)
qed

lemma markWorkflowCompleted_settled:
  assumes "storeAll Q st"
  shows "storeAll Q (markWorkflowCompleted st wid)"
proof (cases "loadWorkflowState st wid")
  case None
  then show ?thesis using assms by (simp add: markWorkflowCompleted_def)
next
  case (Some s)
  from loaded_settled [OF assms Some]
  show ?thesis using Some assms by (simp add: markWorkflowCompleted_def save_settled)
qed

lemma resumeWorkflow_settled:
  assumes "storeAll Q st" and "resumeWorkflow st wid = Inr (s, st')"
  shows "storeAll Q st' \<and> resultsAll Q (stageOutputs s)"
proof -
  from assms(2) obtain s0 where l: "loadWorkflowState st wid = Some s0"
    and s: "s = s0\<lparr>wfStatus := Running, pausedStage := None, failedStage := None,
                    errorMessage := None\<rparr>"
    and st': "st' = saveWorkflowState st s"
    by (auto simp: resumeWorkflow_def Let_def split: option.splits if_splits)
  from loaded_settled [OF assms(1) l] have "resultsAll Q (stageOutputs s)" using s by simp
  then show ?thesis using assms(1) st' by (simp add: save_settled)
qed

text \<open>What one step of the loop does to the recorded results and the store.\<close>

lemma executeStage_Inr:
  "outcome (executeStage ob sf mods st rof w) = Inr r
     \<Longrightarrow> status r = complete \<and> transcript r = None"
  using executeStage_counts [of ob sf mods st rof w] by simp

lemma stageStep_settled:
  assumes "stageStep P mods flow resumed wid n ls = (ls', goOn)"
    and "resultsAll Q (outputsSoFar ls)" and "storeAll Q (storeNow ls)"
    and "\<forall>s. resumed = Some s \<longrightarrow> resultsAll Q (stageOutputs s)"
    and "recordable Q"
  shows "resultsAll Q (outputsSoFar ls') \<and> storeAll Q (storeNow ls')"
proof (cases "resumed \<noteq> None \<and> n \<in> set (completedStages (the resumed))")
  case True
  then obtain s where s: "resumed = Some s" by auto
  have "Q (case map_of (stageOutputs s) n of Some r \<Rightarrow> r | None \<Rightarrow> resumedResult)"
    using assms(4,5) s
    by (auto simp: recordable_def split: option.splits dest: resultsSettled_map_of)
  then show ?thesis using assms(1,2,3) True s
    by (auto simp: stageStep_def resultsSettled_update)
next
  case False
  show ?thesis
  proof (cases "find (\<lambda>s. name s = n) (stages flow)")
    case None
    then show ?thesis using assms(1,2,3) False by (auto simp: stageStep_def)
  next
    case (Some st)
    show ?thesis
    proof (cases "unmetDependenciesOf (outputsSoFar ls) st \<noteq> []")
      case True
      have "Q (skippedResult (unmetDependenciesOf (outputsSoFar ls) st))"
        using assms(5) by (simp add: recordable_def)
      then show ?thesis using assms(1,2,3) False Some True
        by (auto simp: stageStep_def resultsSettled_update)
    next
      case u: False
      let ?run = "executeStage (observe P) (stringify P) mods st (retryOnFailure flow) (worldNow ls)"
      show ?thesis
      proof (cases "outcome ?run")
        case (Inr r)
        from executeStage_Inr [OF Inr] have c: "Q r" using assms(5) by (simp add: recordable_def)
        have "storeAll Q (case wid of None \<Rightarrow> storeNow ls
                            | Some i \<Rightarrow> updateStageCompletion (storeNow ls) i n r)"
          using assms(3) c by (simp add: updateStageCompletion_settled split: option.splits)
        then show ?thesis using assms(1,2) False Some u Inr c
          by (auto simp: stageStep_def Let_def resultsSettled_update)
      next
        case (Inl m)
        have f: "Q (failedResultFor st (retryOnFailure flow) m)"
          using assms(5) by (simp add: recordable_def)
        have "storeAll Q (case wid of None \<Rightarrow> storeNow ls
                            | Some i \<Rightarrow> updateStageFailure (storeNow ls) i n m)"
          using assms(3) by (simp add: updateStageFailure_settled split: option.splits)
        then show ?thesis using assms(1,2) False Some u Inl f
          by (auto simp: stageStep_def Let_def resultsSettled_update)
      qed
    qed
  qed
qed

lemma stageLoop_settled:
  assumes "resultsAll Q (outputsSoFar ls)" and "storeAll Q (storeNow ls)"
    and "\<forall>s. resumed = Some s \<longrightarrow> resultsAll Q (stageOutputs s)"
    and "recordable Q"
  shows "resultsAll Q (outputsSoFar (stageLoop P mods flow resumed wid order ls))
         \<and> storeAll Q (storeNow (stageLoop P mods flow resumed wid order ls))"
  using assms
proof (induction order arbitrary: ls)
  case Nil
  then show ?case by simp
next
  case (Cons n rest)
  obtain ls' goOn where st: "stageStep P mods flow resumed wid n ls = (ls', goOn)"
    by (cases "stageStep P mods flow resumed wid n ls")
  from stageStep_settled [OF st Cons.prems]
  have s': "resultsAll Q (outputsSoFar ls')" "storeAll Q (storeNow ls')" by simp_all
  show ?case
  proof (cases goOn)
    case True
    then show ?thesis using Cons.IH [OF s' Cons.prems(3,4)] st by simp
  next
    case False
    then show ?thesis using s' st by simp
  qed
qed

section \<open>One pass of the scheduler\<close>

lemma runPass_Inr_cases:
  assumes "runPass P mods flow ctx st w = Inr p"
  shows "\<exists>order resumed ctx' st2 wid.
           validateWorkflow flow = [] \<and> topologicalSort (stages flow) = Inr order
           \<and> openState P mods flow ctx order st w = Inr (resumed, ctx', st2, wid)
           \<and> p = passOf order ctx' wid (stageLoop P mods flow resumed wid order (initialLoopState st2 w))"
proof -
  from assms have v: "validateWorkflow flow = []"
    by (auto simp: runPass_def split: if_splits)
  from assms v obtain order where ts: "topologicalSort (stages flow) = Inr order"
    by (auto simp: runPass_def split: sum.splits)
  from assms v ts obtain q where os: "openState P mods flow ctx order st w = Inr q"
    by (auto simp: runPass_def split: sum.splits)
  obtain resumed ctx' st2 wid where q: "q = (resumed, ctx', st2, wid)" by (cases q)
  from assms v ts os q
  have "p = passOf order ctx' wid (stageLoop P mods flow resumed wid order (initialLoopState st2 w))"
    by (auto simp: runPass_def split: if_splits)
  then show ?thesis using v ts os q by blast
qed

lemma openState_settled:
  assumes "openState P mods flow ctx order st w = Inr (resumed, ctx', st2, wid)"
    and "storeAll Q st"
  shows "storeAll Q st2 \<and> (\<forall>s. resumed = Some s \<longrightarrow> resultsAll Q (stageOutputs s))"
proof (cases "persistence mods \<and> truthy (workflowId ctx)")
  case True
  show ?thesis
  proof (cases "resumeWorkflow st (the (workflowId ctx))")
    case (Inr pr)
    obtain s st' where pr: "pr = (s, st')" by (cases pr)
    from resumeWorkflow_settled [OF assms(2) Inr [unfolded pr]]
    show ?thesis using assms(1) True Inr pr by (auto simp: openState_def)
  next
    case (Inl e)
    have "resultsAll Q (stageOutputs (newWorkflowState (newWorkflowId P w) flow ctx order))"
      by (simp add: newWorkflowState_def resultsAll_def)
    then show ?thesis using assms True Inl
      by (auto simp: openState_def save_settled split: if_splits)
  qed
next
  case False
  have "resultsAll Q (stageOutputs (newWorkflowState (newWorkflowId P w) flow ctx order))"
    by (simp add: newWorkflowState_def resultsAll_def)
  then show ?thesis using assms False
    by (auto simp: openState_def save_settled split: if_splits)
qed

lemma openState_fresh:
  assumes "openState P mods flow ctx order st w = Inr (resumed, ctx', st2, wid)"
    and "\<not> (persistence mods \<and> truthy (workflowId ctx))"
  shows "resumed = None \<and> ctx' = ctx"
  using assms by (auto simp: openState_def split: if_splits)

lemma runPass_settled:
  assumes "storeAll Q st" and "recordable Q"
  shows "(\<forall>p. runPass P mods flow ctx st w = Inr p
            \<longrightarrow> resultsAll Q (passOutputs p) \<and> storeAll Q (passStore p))
         \<and> (\<forall>e st'. runPass P mods flow ctx st w = Inl (e, st') \<longrightarrow> storeAll Q st')"
proof (cases "validateWorkflow flow = []")
  case False
  then show ?thesis using assms by (simp add: runPass_def)
next
  case v: True
  show ?thesis
  proof (cases "topologicalSort (stages flow)")
    case (Inl e)
    then show ?thesis using assms v by (simp add: runPass_def)
  next
    case (Inr order)
    show ?thesis
    proof (cases "openState P mods flow ctx order st w")
      case (Inl e)
      then show ?thesis using assms v Inr by (simp add: runPass_def)
    next
      case os: (Inr q)
      obtain resumed ctx' st2 wid where q: "q = (resumed, ctx', st2, wid)" by (cases q)
      from openState_settled [OF os [unfolded q] assms(1)]
      have s2: "storeAll Q st2" and rs: "\<forall>s. resumed = Some s \<longrightarrow> resultsAll Q (stageOutputs s)"
        by simp_all
      have init: "resultsAll Q (outputsSoFar (initialLoopState st2 w))"
        "storeAll Q (storeNow (initialLoopState st2 w))"
        using s2 by (simp_all add: initialLoopState_def resultsAll_def)
      from stageLoop_settled [OF init rs assms(2), of P mods flow wid order]
      show ?thesis using v Inr os q s2 by (simp add: runPass_def passOf_def)
    qed
  qed
qed

section \<open>The iteration controller\<close>

lemma executeWorkflow_finish:
  assumes "runPass P mods flow ctx st w = Inr p"
    and "iterationDecision (gapEnv P (passWorld p)) flow (currentIterationOf ctx) p = Finish s"
  shows "executeWorkflow P mods flow ctx st w = finishPass flow (currentIterationOf ctx) s p"
  by (subst executeWorkflow.simps) (simp add: assms)

lemma executeWorkflow_restart:
  assumes "runPass P mods flow ctx st w = Inr p"
    and "iterationDecision (gapEnv P (passWorld p)) flow (currentIterationOf ctx) p = Restart nc"
  shows "executeWorkflow P mods flow ctx st w
           = (executeWorkflow P mods flow nc (passStore p) (passWorld p))
               \<lparr>spawnLog := passSpawns p @ spawnLog (executeWorkflow P mods flow nc (passStore p) (passWorld p)),
                statusLog := RestartDetected # statusLog (executeWorkflow P mods flow nc (passStore p) (passWorld p))\<rparr>"
  by (subst executeWorkflow.simps) (simp add: assms Let_def)

lemma executeWorkflow_settled:
  assumes "recordable Q" and "storeAll Q st"
  shows "(\<forall>res. returned (executeWorkflow P mods flow ctx st w) = Inr res
              \<longrightarrow> resultsAll Q (resultStages res))
         \<and> storeAll Q (finalStore (executeWorkflow P mods flow ctx st w))"
  using assms
proof (induction P mods flow ctx st w rule: executeWorkflow.induct)
  case (1 P mods flow ctx st w)
  note rs = runPass_settled [OF "1.prems"(2,1), of P mods flow ctx w]
  show ?case
  proof (cases "runPass P mods flow ctx st w")
    case (Inl pr)
    obtain e st' where pr: "pr = (e, st')" by (cases pr)
    show ?thesis using rs Inl pr
      by (simp add: executeWorkflow_pass_error [OF Inl [unfolded pr]])
  next
    case (Inr p)
    from rs Inr have po: "resultsAll Q (passOutputs p)" and ps: "storeAll Q (passStore p)"
      by simp_all
    show ?thesis
    proof (cases "iterationDecision (gapEnv P (passWorld p)) flow (currentIterationOf ctx) p")
      case (Finish s)
      show ?thesis
        unfolding executeWorkflow_finish [OF Inr Finish]
        using po ps
        by (simp add: finishPass_def markWorkflowCompleted_settled split: option.splits)
    next
      case (Restart nc)
      from "1.IH" [OF Inr Restart "1.prems"(1) ps]
      show ?thesis
        unfolding executeWorkflow_restart [OF Inr Restart] by simp
    qed
  qed
qed


lemma decision_Finish:
  assumes "iterationDecision env flow cur p = Finish s"
  shows "s \<noteq> RestartDetected \<and> (s = ReachedMax \<longrightarrow> maxIterationsOf flow \<le> cur)"
  using assms
  by (auto simp: iterationDecision_def Let_def split: if_splits)

lemma decision_without_transcript:
  assumes "resultsAll noTranscript (passOutputs p)"
  shows "iterationDecision env flow cur p \<noteq> Restart nc"
proof -
  have "checkCriticalGaps env (map_of (passOutputs p) k) = None" for k
  proof (cases "map_of (passOutputs p) k")
    case None
    then show ?thesis by (simp add: checkCriticalGaps_def)
  next
    case (Some so)
    from resultsSettled_map_of [OF assms Some] have "transcript so = None"
      by (simp add: noTranscript_def)
    then show ?thesis using Some by (simp add: checkCriticalGaps_def truthy_def)
  qed
  moreover have "checkCriticalGaps env None = None" by (simp add: checkCriticalGaps_def)
  ultimately show ?thesis
    by (auto simp: iterationDecision_def Let_def split: if_splits)
qed

lemma recordable_settled: "recordable settled"
  by (simp add: recordable_def settled_def resumedResult_def skippedResult_def
        failedResultFor_def blankResult_def)

lemma recordable_noTranscript: "recordable noTranscript"
  by (simp add: recordable_def noTranscript_def resumedResult_def skippedResult_def
        failedResultFor_def blankResult_def)

text \<open>
  As long as no persisted stage result carries a \<^verbatim>\<open>transcript\<close> field, which no
  operation of the scheduler ever writes, the controller never restarts.
\<close>

lemma never_restarts:
  assumes "storeAll noTranscript st"
  shows "RestartDetected \<notin> set (statusLog (executeWorkflow P mods flow ctx st w))
         \<and> (\<forall>res. returned (executeWorkflow P mods flow ctx st w) = Inr res
               \<longrightarrow> current (iterationInfo res) = currentIterationOf ctx)"
proof (cases "runPass P mods flow ctx st w")
  case (Inl pr)
  obtain e st' where pr: "pr = (e, st')" by (cases pr)
  show ?thesis by (simp add: executeWorkflow_pass_error [OF Inl [unfolded pr]])
next
  case (Inr p)
  from runPass_settled [OF assms recordable_noTranscript, of P mods flow ctx w] Inr
  have nt: "resultsAll noTranscript (passOutputs p)" by simp
  show ?thesis
  proof (cases "iterationDecision (gapEnv P (passWorld p)) flow (currentIterationOf ctx) p")
    case (Restart nc)
    then show ?thesis using decision_without_transcript [OF nt] by blast
  next
    case (Finish s)
    from decision_Finish [OF Finish] show ?thesis
      unfolding executeWorkflow_finish [OF Inr Finish] by (auto simp: finishPass_def)
  qed
qed



section \<open>Halting on the first failure\<close>

lemma sorted_ancestor_index:
  assumes u: "uniqueNames sts" and r: "depsResolve sts"
    and ok: "topologicalSort sts = Inr order" and path: "(a, b) \<in> (depRel sts)\<^sup>+"
  shows "indexOf order a < indexOf order b"
proof -
  from topologicalSort_cases [OF u r] obtain res ind' where
    inv: "kahnInv sts ind' [] res (set res)"
    and ts: "topologicalSort sts
               = (if length res \<noteq> length (map name sts)
                  then Inl (CircularDependencyInvolving
                              (filter (\<lambda>n. n \<notin> set res) (map name sts)))
                  else Inr res)"
    by blast
  from ts ok have eq: "order = res" by (auto split: if_splits)
  from topologicalSort_Inr [OF u r ok] have "set order = set (map name sts)" by simp
  with on_cycle_is_stage [OF path] have "b \<in> set res" using eq by simp
  from emitted_after_ancestor [OF inv path this] show ?thesis using eq by simp
qed

lemma indexOf_append_fresh: "x \<notin> set pre \<Longrightarrow> indexOf (pre @ x # post) x = length pre"
  by (induction pre) auto

lemma indexOf_append_MEM: "x \<in> set pre \<Longrightarrow> indexOf (pre @ ys) x < length pre"
  by (induction pre) auto

lemma stageStep_shape:
  assumes "stageStep P mods flow resumed wid n ls = (ls', goOn)"
  shows "(outputsSoFar ls' = outputsSoFar ls
          \<or> (\<exists>v. outputsSoFar ls' = AList.update n v (outputsSoFar ls)))
         \<and> (\<exists>k. spawnsSoFar ls' = spawnsSoFar ls @ replicate k n)"
proof -
  have nil: "\<And>xs. xs = xs @ replicate 0 n" by simp
  show ?thesis
    using assms
    by (auto simp: stageStep_def Let_def split: if_splits option.splits sum.splits
             intro: nil)
qed

lemma stageStep_keys:
  assumes "stageStep P mods flow resumed wid n ls = (ls', goOn)"
  shows "fst ` set (outputsSoFar ls') \<subseteq> insert n (fst ` set (outputsSoFar ls))
         \<and> set (spawnsSoFar ls') \<subseteq> insert n (set (spawnsSoFar ls))"
proof -
  from stageStep_shape [OF assms] obtain k where
    o: "outputsSoFar ls' = outputsSoFar ls
          \<or> (\<exists>v. outputsSoFar ls' = AList.update n v (outputsSoFar ls))"
    and sp: "spawnsSoFar ls' = spawnsSoFar ls @ replicate k n" by blast
  from o have "fst ` set (outputsSoFar ls') \<subseteq> insert n (fst ` set (outputsSoFar ls))"
  proof
    assume "outputsSoFar ls' = outputsSoFar ls"
    then show ?thesis by auto
  next
    assume "\<exists>v. outputsSoFar ls' = AList.update n v (outputsSoFar ls)"
    then obtain v where "outputsSoFar ls' = AList.update n v (outputsSoFar ls)" by blast
    then show ?thesis by (simp add: dom_update)
  qed
  moreover have "set (spawnsSoFar ls') \<subseteq> insert n (set (spawnsSoFar ls))"
    using sp by auto
  ultimately show ?thesis by simp
qed

lemma stageStep_failed:
  assumes "stageStep P mods flow resumed wid n ls = (ls', goOn)"
  shows "failedSoFar ls' = failedSoFar ls
         \<or> (failedSoFar ls' = Some n \<and> goOn = (\<not> stopOnErrorOf flow)
             \<and> (\<exists>r. map_of (outputsSoFar ls') n = Some r \<and> status r = failed))"
  using assms
  by (auto simp: stageStep_def Let_def update_conv' failedResultFor_def
           split: if_splits option.splits sum.splits)

lemma stageLoop_halts:
  assumes "stopOnErrorOf flow" and "failedSoFar ls = None"
    and "failedSoFar (stageLoop P mods flow resumed wid order ls) = Some f"
  shows "\<exists>pre post. order = pre @ f # post
           \<and> fst ` set (outputsSoFar (stageLoop P mods flow resumed wid order ls))
               \<subseteq> fst ` set (outputsSoFar ls) \<union> set pre \<union> {f}
           \<and> set (spawnsSoFar (stageLoop P mods flow resumed wid order ls))
               \<subseteq> set (spawnsSoFar ls) \<union> set pre \<union> {f}
           \<and> (\<exists>r. map_of (outputsSoFar (stageLoop P mods flow resumed wid order ls)) f = Some r
                  \<and> status r = failed)"
  using assms(2,3)
proof (induction order arbitrary: ls)
  case Nil
  then show ?case by simp
next
  case (Cons n rest)
  obtain ls' goOn where st: "stageStep P mods flow resumed wid n ls = (ls', goOn)"
    by (cases "stageStep P mods flow resumed wid n ls")
  note keys = stageStep_keys [OF st]
  from stageStep_failed [OF st]
  show ?case
  proof
    assume same: "failedSoFar ls' = failedSoFar ls"
    show ?thesis
    proof (cases goOn)
      case False
      then have "stageLoop P mods flow resumed wid (n # rest) ls = ls'" using st by simp
      then show ?thesis using Cons.prems same by simp
    next
      case True
      then have eq: "stageLoop P mods flow resumed wid (n # rest) ls
                       = stageLoop P mods flow resumed wid rest ls'" using st by simp
      from same Cons.prems(1) have n': "failedSoFar ls' = None" by simp
      from Cons.prems(2) eq have f': "failedSoFar (stageLoop P mods flow resumed wid rest ls') = Some f"
        by simp
      from Cons.IH [OF n' f'] obtain pre post where
        o: "rest = pre @ f # post"
        and k: "fst ` set (outputsSoFar (stageLoop P mods flow resumed wid rest ls'))
                  \<subseteq> fst ` set (outputsSoFar ls') \<union> set pre \<union> {f}"
        and s: "set (spawnsSoFar (stageLoop P mods flow resumed wid rest ls'))
                  \<subseteq> set (spawnsSoFar ls') \<union> set pre \<union> {f}"
        and r: "\<exists>r. map_of (outputsSoFar (stageLoop P mods flow resumed wid rest ls')) f = Some r
                  \<and> status r = failed"
        by blast
      have o': "n # rest = (n # pre) @ f # post" using o by simp
      have k': "fst ` set (outputsSoFar (stageLoop P mods flow resumed wid rest ls'))
                  \<subseteq> fst ` set (outputsSoFar ls) \<union> set (n # pre) \<union> {f}"
        using k keys by auto
      have s': "set (spawnsSoFar (stageLoop P mods flow resumed wid rest ls'))
                  \<subseteq> set (spawnsSoFar ls) \<union> set (n # pre) \<union> {f}"
        using s keys by auto
      show ?thesis unfolding eq using o' k' s' r by blast
    qed
  next
    assume new: "failedSoFar ls' = Some n \<and> goOn = (\<not> stopOnErrorOf flow)
                 \<and> (\<exists>r. map_of (outputsSoFar ls') n = Some r \<and> status r = failed)"
    then have stop: "\<not> goOn" using assms(1) by simp
    then have eq: "stageLoop P mods flow resumed wid (n # rest) ls = ls'" using st by simp
    from Cons.prems(2) eq new have fn: "f = n" by simp
    have "n # rest = [] @ f # rest" using fn by simp
    moreover have "fst ` set (outputsSoFar ls') \<subseteq> fst ` set (outputsSoFar ls) \<union> set [] \<union> {f}"
      using keys fn by auto
    moreover have "set (spawnsSoFar ls') \<subseteq> set (spawnsSoFar ls) \<union> set [] \<union> {f}"
      using keys fn by auto
    ultimately show ?thesis unfolding eq using new fn by blast
  qed
qed

lemma executeWorkflow_final_pass:
  assumes "returned (executeWorkflow P mods flow ctx st w) = Inr res"
  shows "\<exists>ctx' st' w' p. runPass P mods flow ctx' st' w' = Inr p
           \<and> resultStages res = passOutputs p \<and> resultFailedStage res = passFailed p
           \<and> resultOrder res = passOrder p"
  using assms
proof (induction P mods flow ctx st w rule: executeWorkflow.induct)
  case (1 P mods flow ctx st w)
  show ?case
  proof (cases "runPass P mods flow ctx st w")
    case (Inl pr)
    obtain e st' where pr: "pr = (e, st')" by (cases pr)
    show ?thesis using "1.prems"
      by (simp add: executeWorkflow_pass_error [OF Inl [unfolded pr]])
  next
    case (Inr p)
    show ?thesis
    proof (cases "iterationDecision (gapEnv P (passWorld p)) flow (currentIterationOf ctx) p")
      case (Finish s)
      from "1.prems" have "resultStages res = passOutputs p \<and> resultFailedStage res = passFailed p
           \<and> resultOrder res = passOrder p"
        unfolding executeWorkflow_finish [OF Inr Finish] by (auto simp: finishPass_def)
      then show ?thesis using Inr by blast
    next
      case (Restart nc)
      from "1.prems" have r: "returned (executeWorkflow P mods flow nc (passStore p) (passWorld p)) = Inr res"
        unfolding executeWorkflow_restart [OF Inr Restart] by simp
      from "1.IH" [OF Inr Restart r] show ?thesis .
    qed
  qed
qed

section \<open>Claims about the dependency sorter\<close>




text \<open>
  C6. For every stage graph with unique names and resolving dependencies that
  contains a dependency cycle, the sorter throws the circular-dependency error, whose
  list of stages names every stage that lies on a cycle; being an error, it carries
  no order. \<^verbatim>\<open>executeWorkflow\<close> then throws as well (this very error when the workflow
  passes validation) without a single call of the spawner, and leaves the outside
  world and the store as they were.
\<close>

theorem cyclic_graph_rejected_before_any_spawn:
  assumes "uniqueNames (stages flow)" and "depsResolve (stages flow)"
    and "(c, c) \<in> (depRel (stages flow))\<^sup>+"
  shows "\<exists>remaining.
           topologicalSort (stages flow) = Inl (CircularDependencyInvolving remaining)
           \<and> c \<in> set remaining
           \<and> (\<exists>e. returned (executeWorkflow P mods flow ctx st w) = Inl e
                  \<and> (validateWorkflow flow = []
                       \<longrightarrow> e = SortFailed (CircularDependencyInvolving remaining)))
           \<and> spawnLog (executeWorkflow P mods flow ctx st w) = []
           \<and> finalWorld (executeWorkflow P mods flow ctx st w) = w
           \<and> finalStore (executeWorkflow P mods flow ctx st w) = st"
proof -
  from topologicalSort_cyclic_Inl [OF assms] obtain remaining where
    ts: "topologicalSort (stages flow) = Inl (CircularDependencyInvolving remaining)"
    and c: "c \<in> set remaining" by blast
  from runPass_sort_error [OF ts, of P mods ctx st w] obtain e where
    rp: "runPass P mods flow ctx st w = Inl (e, st)"
    and e: "validateWorkflow flow = [] \<longrightarrow> e = SortFailed (CircularDependencyInvolving remaining)"
    by blast
  show ?thesis
    using ts c e by (simp add: executeWorkflow_pass_error [OF rp])
qed

theorem cyclic_graph_rejected_before_any_spawn_witness:
  "uniqueNames cycleStages \<and> depsResolve cycleStages
   \<and> (''X'', ''X'') \<in> (depRel cycleStages)\<^sup>+
   \<and> topologicalSort cycleStages = Inl (CircularDependencyInvolving [''X'', ''Y''])
   \<and> returned (executeWorkflow examplePorts noModules (mkWorkflow cycleStages) emptyContext
                  Map.empty ())
       = Inl (SortFailed (CircularDependencyInvolving [''X'', ''Y'']))
   \<and> spawnLog (executeWorkflow examplePorts noModules (mkWorkflow cycleStages) emptyContext
                  Map.empty ()) = []"
proof -
  have st: "stages (mkWorkflow cycleStages) = cycleStages" by (simp add: mkWorkflow_def)
  have u: "uniqueNames cycleStages"
    by (simp add: uniqueNames_def cycleStages_def mkStage_def)
  have r: "depsResolve cycleStages"
    by (simp add: depsResolve_def cycleStages_def mkStage_def)
  have "(''X'', ''Y'') \<in> depRel cycleStages" and "(''Y'', ''X'') \<in> depRel cycleStages"
    by (simp_all add: depRel_def cycleStages_def mkStage_def)
  then have c: "(''X'', ''X'') \<in> (depRel cycleStages)\<^sup>+"
    by (rule trancl_into_trancl [OF r_into_trancl])
  have ev: "topologicalSort cycleStages = Inl (CircularDependencyInvolving [''X'', ''Y''])"
    by code_simp
  have v: "validateWorkflow (mkWorkflow cycleStages) = []"
    by code_simp
  from cyclic_graph_rejected_before_any_spawn
         [of "mkWorkflow cycleStages" "''X''" examplePorts noModules emptyContext Map.empty "()"]
       u r c st ev v
  show ?thesis by auto
qed

section \<open>Claims about the evidence validator\<close>







section \<open>Claims about the retry count\<close>

text \<open>
  C4, as the code has it. A stage that completes records \<open>attempts\<close> as the number of
  the attempt that succeeded, one more than the failed attempts before it, and at
  most the retry limit plus one. A stage that fails records, under
  \<^verbatim>\<open>error.attempts\<close>, the retry limit plus one; when the retry loop ran until the limit
  (the task text was built, and neither the error handler nor the checkpoint
  module cutting it short) that is the number of failed attempts.
\<close>

theorem attempts_of_recorded_result:
  "(status (recordedResult st rof (executeStage ob sf mods st rof w)) = complete
    \<or> status (recordedResult st rof (executeStage ob sf mods st rof w)) = failed)
   \<and> (status (recordedResult st rof (executeStage ob sf mods st rof w)) = complete
        \<longrightarrow> attempts (recordedResult st rof (executeStage ob sf mods st rof w))
              = Some (min (failuresSeen (executeStage ob sf mods st rof w) + 1)
                          (effectiveRetries st rof + 1)))
   \<and> (status (recordedResult st rof (executeStage ob sf mods st rof w)) = failed
        \<and> preparation st = Ready \<and> \<not> errorHandler mods \<and> \<not> checkpoint mods
        \<longrightarrow> map_option snd (failure (recordedResult st rof (executeStage ob sf mods st rof w)))
              = Some (min (failuresSeen (executeStage ob sf mods st rof w))
                          (effectiveRetries st rof + 1))
            \<and> failuresSeen (executeStage ob sf mods st rof w) = effectiveRetries st rof + 1)"
proof (cases "outcome (executeStage ob sf mods st rof w)")
  case (Inl m)
  then show ?thesis
    using executeStage_counts [of ob sf mods st rof w]
    by (simp add: recordedResult_def failedResultFor_def)
next
  case (Inr r)
  then show ?thesis
    using executeStage_counts [of ob sf mods st rof w]
    by (simp add: recordedResult_def min_def)
qed

theorem attempts_of_recorded_result_witness:
  "attempts (recordedResult gapStage None
               (executeStage (observe examplePorts) (stringify examplePorts) noModules gapStage None ()))
     = Some 1
   \<and> failuresSeen (executeStage (observe failingPorts) (stringify failingPorts) noModules
                     retriedStage None ()) = 3
   \<and> map_option snd (failure (recordedResult retriedStage None
               (executeStage (observe failingPorts) (stringify failingPorts) noModules
                  retriedStage None ()))) = Some 3"
proof -
  have c: "status (recordedResult gapStage None
               (executeStage (observe examplePorts) (stringify examplePorts) noModules gapStage None ()))
           = complete"
    by code_simp
  have f0: "failuresSeen (executeStage (observe examplePorts) (stringify examplePorts) noModules
                            gapStage None ()) = 0"
    by code_simp
  have e0: "effectiveRetries gapStage None = 0" by code_simp
  have f: "status (recordedResult retriedStage None
               (executeStage (observe failingPorts) (stringify failingPorts) noModules
                  retriedStage None ())) = failed"
    by code_simp
  have m: "preparation retriedStage = Ready \<and> \<not> errorHandler noModules
           \<and> \<not> checkpoint noModules \<and> effectiveRetries retriedStage None = 2"
    by code_simp
  show ?thesis
    using attempts_of_recorded_result
            [of gapStage None "observe examplePorts" "stringify examplePorts" noModules "()"]
          attempts_of_recorded_result
            [of retriedStage None "observe failingPorts" "stringify failingPorts" noModules "()"]
          c f0 e0 f m
    by auto
qed

text \<open>
  C4, as stated, fails on a stage that succeeds at its first attempt: no attempt
  has failed, the retry limit is zero, and the result records one attempt, where
  the claimed minimum of the failures and the retry limit plus one is zero.
\<close>

theorem first_attempt_success_counts_one:
  "status (recordedResult gapStage None
             (executeStage (observe examplePorts) (stringify examplePorts) noModules gapStage None ()))
     = complete
   \<and> failuresSeen (executeStage (observe examplePorts) (stringify examplePorts) noModules
                     gapStage None ()) = 0
   \<and> effectiveRetries gapStage None = 0
   \<and> attempts (recordedResult gapStage None
                 (executeStage (observe examplePorts) (stringify examplePorts) noModules gapStage None ()))
       = Some 1
   \<and> attempts (recordedResult gapStage None
                 (executeStage (observe examplePorts) (stringify examplePorts) noModules gapStage None ()))
       \<noteq> Some (min (failuresSeen (executeStage (observe examplePorts) (stringify examplePorts)
                                     noModules gapStage None ()))
                     (effectiveRetries gapStage None + 1))"
  by code_simp

section \<open>Claims about the iteration controller\<close>

text \<open>
  C1. The claim: when the last stage's evidence file lists an open gap of high
  priority, with iteration enabled and the counter at 0 below the cap of 3,
  \<^verbatim>\<open>executeWorkflow\<close> detects critical gaps and restarts with the counter at 1 and one
  record in the history. On the code, for such a workflow (one stage whose evidence
  file holds exactly that gap, which the filter of \<^verbatim>\<open>checkCriticalGaps\<close> counts as
  critical), the pass succeeds, the stage result carries the evidence but no
  \<^verbatim>\<open>transcript\<close> field, the gap check gives up before reading the file, and the call
  returns with status no-gaps, the counter at 0 and an empty history, after a single
  pass.
\<close>

theorem open_high_gap_is_not_detected:
  "map_option (\<lambda>res. (success res,
                      map (\<lambda>(n, r). (n, status r, evidence r, transcript r)) (resultStages res),
                      iterStatus (iterationInfo res), current (iterationInfo res),
                      maxIter (iterationInfo res), enabled (iterationInfo res),
                      history (iterationInfo res)))
     (resultOf (executeWorkflow examplePorts loadedModules gapWorkflow emptyContext Map.empty ()))
     = Some (True, [(''gap-analysis'', complete, Some exampleEvidence, None)], NoGaps, 0, 3, True, [])
   \<and> statusLog (executeWorkflow examplePorts loadedModules gapWorkflow emptyContext Map.empty ())
       = [NoGaps]
   \<and> spawnLog (executeWorkflow examplePorts loadedModules gapWorkflow emptyContext Map.empty ())
       = [''gap-analysis'']
   \<and> readFileSync exampleGapEnv ''/work/gaps.json'' = Some gapFileText
   \<and> parseGaps exampleGapEnv gapFileText
       = GapsArray [\<lparr>priority = Some ''HIGH'', gapStatus = Str ''open''\<rparr>]
   \<and> isCriticalGap \<lparr>priority = Some ''HIGH'', gapStatus = Str ''open''\<rparr> = Some True"
  by code_simp




section \<open>Claims about the returned stage results\<close>

text \<open>
  C10. Provided no stage result in the state store is pending, which the empty store
  satisfies and every call preserves, every stage result in the aggregate returned
  by \<^verbatim>\<open>executeWorkflow\<close> has status complete, failed or skipped, whatever
  \<^verbatim>\<open>stopOnError\<close> is and wherever the loop stopped.
\<close>

theorem no_pending_result_returned:
  assumes "storeAll settled st"
  shows "(\<forall>res. returned (executeWorkflow P mods flow ctx st w) = Inr res
            \<longrightarrow> (\<forall>(n, r) \<in> set (resultStages res).
                   status r = complete \<or> status r = failed \<or> status r = skipped))
         \<and> storeAll settled (finalStore (executeWorkflow P mods flow ctx st w))"
  using executeWorkflow_settled [OF recordable_settled assms, of P mods flow ctx w]
  by (simp add: resultsAll_def settled_def)

theorem no_pending_result_returned_witness:
  "storeAll settled Map.empty
   \<and> map_option (\<lambda>res. map (\<lambda>(n, r). (n, status r)) (resultStages res))
       (resultOf (executeWorkflow failingPorts noModules lenientChain emptyContext Map.empty ()))
       = Some [(''A'', failed), (''B'', skipped), (''C'', skipped)]
   \<and> map_option (\<lambda>res. list_all (\<lambda>(n, r). settled r) (resultStages res))
       (resultOf (executeWorkflow failingPorts noModules lenientChain emptyContext Map.empty ()))
       = Some True"
proof -
  have h: "storeAll settled Map.empty" by (simp add: storeAll_def)
  have ev: "map_option (\<lambda>res. map (\<lambda>(n, r). (n, status r)) (resultStages res))
       (resultOf (executeWorkflow failingPorts noModules lenientChain emptyContext Map.empty ()))
       = Some [(''A'', failed), (''B'', skipped), (''C'', skipped)]"
    by code_simp
  then obtain res where
    res: "returned (executeWorkflow failingPorts noModules lenientChain emptyContext Map.empty ()) = Inr res"
    by (auto simp: resultOf_def split: sum.splits)
  from no_pending_result_returned [OF h, of failingPorts noModules lenientChain emptyContext "()"] res
  have "list_all (\<lambda>(n, r). settled r) (resultStages res)"
    by (auto simp: list_all_iff settled_def)
  then show ?thesis using h ev res by (simp add: resultOf_def)
qed

section \<open>Claims about stopping on the first failure\<close>

text \<open>
  C8. When \<^verbatim>\<open>stopOnError\<close> is true (or left at its default) and the aggregate returned
  names a failed stage, that stage is the first and only failure: its own result is
  failed, every stage after it in the execution order has no result at all, neither
  executed nor skipped, and so has every stage that depends on it directly or
  transitively; none of them is complete.
\<close>

theorem first_failure_halts:
  assumes "returned (executeWorkflow P mods flow ctx st w) = Inr res"
    and "stopOnErrorOf flow" and "resultFailedStage res = Some f"
  shows "f \<in> set (resultOrder res)
         \<and> (\<exists>r. map_of (resultStages res) f = Some r \<and> status r = failed)
         \<and> (\<forall>n. indexOf (resultOrder res) f < indexOf (resultOrder res) n
                \<longrightarrow> map_of (resultStages res) n = None)
         \<and> (\<forall>n. (f, n) \<in> (depRel (stages flow))\<^sup>+ \<longrightarrow> map_of (resultStages res) n = None)
         \<and> (\<forall>n r. (f, n) \<in> (depRel (stages flow))\<^sup>+ \<and> map_of (resultStages res) n = Some r
                \<longrightarrow> status r \<noteq> complete)"
proof -
  from executeWorkflow_final_pass [OF assms(1)] obtain ctx' st' w' p where
    rp: "runPass P mods flow ctx' st' w' = Inr p"
    and rs: "resultStages res = passOutputs p" and rf: "resultFailedStage res = passFailed p"
    and ro: "resultOrder res = passOrder p" by blast
  from runPass_Inr_cases [OF rp] obtain order resumed ctx2 st2 wid where
    v: "validateWorkflow flow = []" and ts: "topologicalSort (stages flow) = Inr order"
    and p: "p = passOf order ctx2 wid (stageLoop P mods flow resumed wid order (initialLoopState st2 w'))"
    by blast
  let ?ls = "stageLoop P mods flow resumed wid order (initialLoopState st2 w')"
  from valid_workflow_wellformed [OF v] have u: "uniqueNames (stages flow)"
    and d: "depsResolve (stages flow)" by simp_all
  from topologicalSort_Inr [OF u d ts] have dist: "distinct order" by simp
  have f0: "failedSoFar (initialLoopState st2 w') = None" by (simp add: initialLoopState_def)
  have ff: "failedSoFar ?ls = Some f" using assms(3) rf p by (simp add: passOf_def)
  from stageLoop_halts [OF assms(2) f0 ff] obtain pre post where
    o: "order = pre @ f # post"
    and k: "fst ` set (outputsSoFar ?ls) \<subseteq> set pre \<union> {f}"
    and r: "\<exists>r. map_of (outputsSoFar ?ls) f = Some r \<and> status r = failed"
    by (auto simp: initialLoopState_def)
  have outs: "resultStages res = outputsSoFar ?ls" and ord: "resultOrder res = order"
    using rs ro p by (simp_all add: passOf_def)
  have fpre: "f \<notin> set pre" using dist o by auto
  have later: "map_of (resultStages res) n = None" if "indexOf order f < indexOf order n" for n
  proof -
    have "n \<noteq> f" using that by auto
    moreover have "n \<notin> set pre"
    proof
      assume "n \<in> set pre"
      then have "indexOf order n < length pre" unfolding o by (rule indexOf_append_MEM)
      moreover have "indexOf order f = length pre" unfolding o using fpre by (rule indexOf_append_fresh)
      ultimately show False using that by simp
    qed
    ultimately have "n \<notin> fst ` set (outputsSoFar ?ls)" using k by auto
    then show ?thesis using outs by (simp add: map_of_eq_None_iff)
  qed
  have dep: "map_of (resultStages res) n = None" if "(f, n) \<in> (depRel (stages flow))\<^sup>+" for n
    using later [OF sorted_ancestor_index [OF u d ts that]] .
  have "f \<in> set (resultOrder res)" using o ord by simp
  moreover have "\<exists>r. map_of (resultStages res) f = Some r \<and> status r = failed"
    using r outs by simp
  ultimately show ?thesis using later dep ord by auto
qed

theorem first_failure_halts_witness:
  "stopOnErrorOf (mkWorkflow chainStages)
   \<and> map_option (\<lambda>res. (resultFailedStage res, resultOrder res,
                         map (\<lambda>(n, r). (n, status r)) (resultStages res)))
       (resultOf (executeWorkflow failingPorts noModules (mkWorkflow chainStages) emptyContext
                    Map.empty ()))
       = Some (Some ''A'', [''A'', ''B'', ''C''], [(''A'', failed)])
   \<and> map_option (\<lambda>res. (map_of (resultStages res) ''B'', map_of (resultStages res) ''C''))
       (resultOf (executeWorkflow failingPorts noModules (mkWorkflow chainStages) emptyContext
                    Map.empty ()))
       = Some (None, None)
   \<and> spawnLog (executeWorkflow failingPorts noModules (mkWorkflow chainStages) emptyContext
                  Map.empty ()) = [''A'']"
proof -
  have s: "stopOnErrorOf (mkWorkflow chainStages)" by code_simp
  have ev: "map_option (\<lambda>res. (resultFailedStage res, resultOrder res,
                         map (\<lambda>(n, r). (n, status r)) (resultStages res)))
       (resultOf (executeWorkflow failingPorts noModules (mkWorkflow chainStages) emptyContext
                    Map.empty ()))
       = Some (Some ''A'', [''A'', ''B'', ''C''], [(''A'', failed)])"
    by code_simp
  have sp: "spawnLog (executeWorkflow failingPorts noModules (mkWorkflow chainStages) emptyContext
                  Map.empty ()) = [''A'']"
    by code_simp
  from ev obtain res where
    res: "returned (executeWorkflow failingPorts noModules (mkWorkflow chainStages) emptyContext
                      Map.empty ()) = Inr res"
    and fs: "resultFailedStage res = Some ''A''"
    by (auto simp: resultOf_def split: sum.splits)
  have ab: "(''A'', ''B'') \<in> depRel (stages (mkWorkflow chainStages))"
    and bc: "(''B'', ''C'') \<in> depRel (stages (mkWorkflow chainStages))"
    by (simp_all add: depRel_def mkWorkflow_def chainStages_def mkStage_def)
  from ab have b: "(''A'', ''B'') \<in> (depRel (stages (mkWorkflow chainStages)))\<^sup>+" by (rule r_into_trancl)
  from ab bc have c: "(''A'', ''C'') \<in> (depRel (stages (mkWorkflow chainStages)))\<^sup>+"
    by (rule trancl_into_trancl [OF r_into_trancl])
  from first_failure_halts [OF res s fs] b c
  have "map_of (resultStages res) ''B'' = None \<and> map_of (resultStages res) ''C'' = None"
    by blast
  then show ?thesis using s ev sp res by (simp add: resultOf_def)
qed

end
